theory Spec2Isabelle
  imports Complex_Main "HOL-Library.Word" "HOL-Library.Multiset"
begin

section \<open>The decred voting plugin of the git backend (politeiad/backend/gitbe/decred.go)\<close>

text \<open>
  The theory embeds the functions of \<^verbatim>\<open>decred.go\<close>: \<^verbatim>\<open>setDecredPluginSetting\<close>,
  \<^verbatim>\<open>verifyMessage\<close>, \<^verbatim>\<open>bestBlock\<close>, \<^verbatim>\<open>block\<close>, \<^verbatim>\<open>snapshot\<close>,
  \<^verbatim>\<open>largestCommitmentAddress\<close>, \<^verbatim>\<open>pluginStartVote\<close>, \<^verbatim>\<open>validateVote\<close> and
  \<^verbatim>\<open>pluginCastVotes\<close>.

  Conventions.
  \<^item> A Go \<^verbatim>\<open>string\<close> and a Go \<^verbatim>\<open>[]byte\<close> are both \<open>string\<close> (a list of 8-bit characters).
  \<^item> A Go result \<^verbatim>\<open>(x, err)\<close> is a sum: \<open>Inl msg\<close> is a non-nil error whose \<^verbatim>\<open>Error()\<close>
    text is \<open>msg\<close>, \<open>Inr x\<close> is the value with a nil error. A Go result that is only an
    \<^verbatim>\<open>error\<close> is a \<open>string option\<close>: \<open>None\<close> is nil. \<^verbatim>\<open>fmt.Errorf("p %v", err)\<close> is
    \<open>''p '' @ msg\<close>.
  \<^item> Functions of other packages (dcrd, dcrdata, the Go standard library, the other files
    of the backend) are not part of \<^verbatim>\<open>decred.go\<close>; they are the fields of the
    record \<open>env\<close>, and every theorem holds for every value of them unless it says otherwise.
  \<^item> Calls with an effect outside the function are recorded, in order, in a list of
    \<open>event\<close>s that each function returns beside its result.
\<close>

subsection \<open>Data\<close>

text \<open>\<^verbatim>\<open>dcrutil.Address\<close>: the address kinds of dcrutil. The argument is the text that
  \<^verbatim>\<open>EncodeAddress()\<close> returns for the address.\<close>

datatype address =
    AddressPubKeyHash string
  | AddressScriptHash string
  | AddressSecpPubKey string
  | AddressEdwardsPubKey string
  | AddressSecSchnorrPubKey string

fun EncodeAddress :: "address \<Rightarrow> string" where
  "EncodeAddress (AddressPubKeyHash s) = s"
| "EncodeAddress (AddressScriptHash s) = s"
| "EncodeAddress (AddressSecpPubKey s) = s"
| "EncodeAddress (AddressEdwardsPubKey s) = s"
| "EncodeAddress (AddressSecSchnorrPubKey s) = s"

text \<open>The type assertion \<^verbatim>\<open>addr.(*dcrutil.AddressPubKeyHash)\<close>.\<close>

fun isAddressPubKeyHash :: "address \<Rightarrow> bool" where
  "isAddressPubKeyHash (AddressPubKeyHash s) = True"
| "isAddressPubKeyHash a = False"

text \<open>\<^verbatim>\<open>dcrdataapi.BlockDataBasic\<close>, the fields that \<^verbatim>\<open>decred.go\<close> reads. \<^verbatim>\<open>Height\<close> is a
  \<^verbatim>\<open>uint32\<close>: the code compares it with, and subtracts from it, a \<^verbatim>\<open>uint32(...)\<close>.\<close>

record BlockDataBasic =
  Height :: "32 word"
  Hash :: string

text \<open>\<^verbatim>\<open>dcrdataapi.TrimmedTx\<close> and its outputs. \<^verbatim>\<open>CommitAmt\<close> is a \<^verbatim>\<open>*float64\<close> decoded from
  JSON: \<open>None\<close> is the nil pointer. A JSON number decodes to a finite float and the code
  only compares these values with each other and with zero, so the value is modelled by
  the real number it denotes.\<close>

record ScriptPubKey =
  CommitAmt :: "real option"
  Addresses :: "string list"

record Vout =
  ScriptPubKeyDecoded :: ScriptPubKey

record TrimmedTx =
  TxID :: string
  Vout :: "Vout list"

text \<open>\<^verbatim>\<open>decredplugin.Vote\<close> (only its token is read), \<^verbatim>\<open>decredplugin.StartVoteReply\<close>,
  \<^verbatim>\<open>backend.MetadataStream\<close>, \<^verbatim>\<open>decredplugin.CastVote\<close> and
  \<^verbatim>\<open>decredplugin.CastVoteReply\<close>. The field \<^verbatim>\<open>Token\<close> of a \<^verbatim>\<open>Vote\<close> is \<open>VoteToken\<close> and the
  field \<^verbatim>\<open>Signature\<close> of a \<^verbatim>\<open>CastVoteReply\<close> is \<open>ReplySignature\<close>, since \<open>Token\<close> and
  \<open>Signature\<close> name the fields of \<^verbatim>\<open>CastVote\<close>.\<close>

record Vote =
  VoteToken :: string

record StartVoteReply =
  StartBlockHeight :: string
  StartBlockHash :: string
  EndHeight :: string
  EligibleTickets :: "string list"

record MetadataStream =
  ID :: nat
  Payload :: string

record CastVote =
  Token :: string
  Ticket :: string
  VoteBit :: string
  Signature :: string

record CastVoteReply =
  ClientSignature :: string
  ReplySignature :: string
  Error :: string

text \<open>The local type \<^verbatim>\<open>dedupVote\<close> of \<^verbatim>\<open>pluginCastVotes\<close>. The Go field is a pointer into
  the slice \<^verbatim>\<open>votes\<close>, which is never written: the model holds the element.\<close>

record dedupVote =
  vote :: CastVote
  index :: nat

text \<open>What a call did outside its own variables.\<close>

datatype event =
    HttpGet string
  | UpdateMetadata string "MetadataStream list"
  | ValidateVote nat
  | Lock
  | Unlock
  | GitCheckout
  | GitPull
  | OpenLedger string
  | AppendLedger string CastVote

text \<open>How a call ends: it returns a value, returns an error, or panics.\<close>

datatype 'a outcome = Returned 'a | Failed string | Panicked string

subsection \<open>The environment\<close>

text \<open>
  The global \<^verbatim>\<open>decredPluginSettings\<close>, the fields of \<^verbatim>\<open>gitBackEnd\<close> that the plugin reads
  and the functions of other packages. \<open>'pk\<close> is the type of a recovered public key
  (\<^verbatim>\<open>chainec.PublicKey\<close>), \<open>'fi\<close> the type \<^verbatim>\<open>identity.FullIdentity\<close>.
  \<^item> \<open>httpGetBlock url\<close>, \<open>httpGetTickets url\<close>, \<open>httpGetTx url\<close>: \<^verbatim>\<open>http.Get(url)\<close> followed by
    \<^verbatim>\<open>json.NewDecoder(r.Body).Decode\<close> into a \<^verbatim>\<open>BlockDataBasic\<close>, a \<^verbatim>\<open>[]string\<close>, a
    \<^verbatim>\<open>TrimmedTx\<close>; \<open>Inl\<close> is the error of either step.
  \<^item> \<open>TicketMaturity\<close> is \<^verbatim>\<open>g.activeNetParams.TicketMaturity\<close>, a \<^verbatim>\<open>uint16\<close> of
    \<^verbatim>\<open>chaincfg.Params\<close>; \<open>NewAddressSecpPubKey\<close> is applied to \<^verbatim>\<open>g.activeNetParams\<close>.
  \<^item> \<open>lockLock\<close> is the error of \<^verbatim>\<open>g.lock.Lock(LockDuration)\<close>, \<open>gitCheckout\<close> and \<open>gitPull\<close>
    the errors of \<^verbatim>\<open>g.gitCheckout(g.unvetted, "master")\<close> and \<^verbatim>\<open>g.gitPull(g.unvetted, true)\<close>.
  \<^item> \<open>OpenFile t\<close>, \<open>Seek t\<close>, \<open>Encode t v\<close>: the errors of \<^verbatim>\<open>os.OpenFile\<close>,
    \<^verbatim>\<open>fileHandle.Seek(0, 2)\<close> and \<^verbatim>\<open>json.NewEncoder(fileHandle).Encode(v)\<close> on the file
    \<^verbatim>\<open>votes\<close> of token \<open>t\<close>.
  \<^item> \<open>rangeMap\<close> is the order in which \<^verbatim>\<open>for _, v := range dedupVotes\<close> visits the map: Go
    does not specify it.
\<close>

record ('pk, 'fi) env =
  settings :: "string \<rightharpoonup> string"
  TicketMaturity :: "16 word"
  httpGetBlock :: "string \<Rightarrow> string + BlockDataBasic"
  httpGetTickets :: "string \<Rightarrow> string + string list"
  httpGetTx :: "string \<Rightarrow> string + TrimmedTx"
  DecodeAddress :: "string \<Rightarrow> string + address"
  WriteVarString :: "string \<Rightarrow> string"
  HashB :: "string \<Rightarrow> string"
  RecoverCompact :: "string \<Rightarrow> string \<Rightarrow> string + ('pk \<times> bool)"
  SerializeCompressed :: "'pk \<Rightarrow> string"
  SerializeUncompressed :: "'pk \<Rightarrow> string"
  NewAddressSecpPubKey :: "string \<Rightarrow> string + address"
  base64DecodeString :: "string \<Rightarrow> string + string"
  base64EncodeToString :: "string \<Rightarrow> string"
  hexDecodeString :: "string \<Rightarrow> string + string"
  hexEncodeToString :: "string \<Rightarrow> string"
  DecodeVote :: "string \<Rightarrow> string + Vote"
  ConvertStringToken :: "string \<Rightarrow> string + string"
  EncodeStartVoteReply :: "StartVoteReply \<Rightarrow> string + string"
  MDStreamVoteBits :: nat
  MDStreamVoteSnapshot :: nat
  UpdateVettedMetadata :: "string \<Rightarrow> MetadataStream list \<Rightarrow> string option"
  DecodeCastVotes :: "string \<Rightarrow> string + CastVote list"
  EncodeCastVoteReplies :: "CastVoteReply list \<Rightarrow> string + string"
  UnmarshalFullIdentity :: "string \<Rightarrow> string + 'fi"
  SignMessage :: "'fi \<Rightarrow> string \<Rightarrow> string"
  lockLock :: "string option"
  shutdown :: bool
  ErrShutdown :: string
  gitCheckout :: "string option"
  gitPull :: "string option"
  OpenFile :: "string \<Rightarrow> string option"
  Seek :: "string \<Rightarrow> string option"
  Encode :: "string \<Rightarrow> CastVote \<Rightarrow> string option"
  rangeMap :: "(string \<times> dedupVote) list \<Rightarrow> (string \<times> dedupVote) list"

subsection \<open>Settings\<close>

definition decredPluginIdentity :: string where
  "decredPluginIdentity = ''fullidentity''"

text \<open>\<^verbatim>\<open>setDecredPluginSetting\<close>: removes the key when the value is empty.\<close>

definition setDecredPluginSetting ::
  "(string \<rightharpoonup> string) \<Rightarrow> string \<Rightarrow> string \<Rightarrow> (string \<rightharpoonup> string)" where
  "setDecredPluginSetting m key val = (if val = [] then m(key := None) else m(key \<mapsto> val))"

text \<open>\<^verbatim>\<open>decredPluginSettings["dcrdata"]\<close>: a missing key reads as the empty string.\<close>

definition dcrdata :: "('pk, 'fi) env \<Rightarrow> string" where
  "dcrdata e = (case settings e ''dcrdata'' of None \<Rightarrow> [] | Some u \<Rightarrow> u)"

subsection \<open>verifyMessage\<close>

definition verifyMessage :: "('pk, 'fi) env \<Rightarrow> string \<Rightarrow> string \<Rightarrow> string \<Rightarrow> string + bool" where
  "verifyMessage e addr message signature =
    (case DecodeAddress e addr of
       Inl err \<Rightarrow> Inl (''Could not decode address: '' @ err)
     | Inr a \<Rightarrow>
        if \<not> isAddressPubKeyHash a
        then Inl (''Address is not a pay-to-pubkey-hash address: '' @ addr)
        else
          (case base64DecodeString e signature of
             Inl err \<Rightarrow> Inl (''Malformed base64 encoding: '' @ err)
           | Inr sig \<Rightarrow>
              (let buf = WriteVarString e (''Decred Signed Message:'' @ [CHR 0x0A])
                           @ WriteVarString e message;
                   expectedMessageHash = HashB e buf
               in case RecoverCompact e sig expectedMessageHash of
                    Inl err \<Rightarrow> Inr False
                  | Inr (pk, wasCompressed) \<Rightarrow>
                     (let serializedPK =
                            (if wasCompressed then SerializeCompressed e pk
                             else SerializeUncompressed e pk)
                      in case NewAddressSecpPubKey e serializedPK of
                           Inl err \<Rightarrow> Inr False
                         | Inr a' \<Rightarrow> Inr (EncodeAddress a' = addr)))))"

text \<open>The hash that \<^verbatim>\<open>verifyMessage\<close> hands to \<^verbatim>\<open>RecoverCompact\<close> for a message.\<close>

definition expectedMessageHash :: "('pk, 'fi) env \<Rightarrow> string \<Rightarrow> string" where
  "expectedMessageHash e message =
     HashB e (WriteVarString e (''Decred Signed Message:'' @ [CHR 0x0A]) @ WriteVarString e message)"

text \<open>Recovery of the signer's address fails: \<^verbatim>\<open>RecoverCompact\<close> returns an error, or
  \<^verbatim>\<open>NewAddressSecpPubKey\<close> does on the serialised key.\<close>

definition recoveryFails :: "('pk, 'fi) env \<Rightarrow> string \<Rightarrow> string \<Rightarrow> bool" where
  "recoveryFails e sig message =
     (case RecoverCompact e sig (expectedMessageHash e message) of
        Inl err \<Rightarrow> True
      | Inr (pk, wasCompressed) \<Rightarrow>
          isl (NewAddressSecpPubKey e
                 (if wasCompressed then SerializeCompressed e pk else SerializeUncompressed e pk)))"

subsection \<open>The dcrdata queries\<close>

text \<open>\<^verbatim>\<open>strconv.FormatUint(n, 10)\<close>: the decimal digits of \<open>n\<close>.\<close>

definition digit10 :: "nat \<Rightarrow> char" where
  "digit10 d = ''0123456789'' ! d"

function FormatUint :: "nat \<Rightarrow> string" where
  "FormatUint n = (if n < 10 then [digit10 n] else FormatUint (n div 10) @ [digit10 (n mod 10)])"
  by pat_completeness auto
termination
  by (relation "measure id") auto

declare FormatUint.simps [simp del]

definition bestBlock :: "('pk, 'fi) env \<Rightarrow> (string + BlockDataBasic) \<times> event list" where
  "bestBlock e = (let url = dcrdata e @ ''api/block/best'' in (httpGetBlock e url, [HttpGet url]))"

definition block :: "('pk, 'fi) env \<Rightarrow> 32 word \<Rightarrow> (string + BlockDataBasic) \<times> event list" where
  "block e b =
     (let h = FormatUint (unat b);
          url = dcrdata e @ ''api/block/'' @ h
      in (httpGetBlock e url, [HttpGet url]))"

definition snapshot :: "('pk, 'fi) env \<Rightarrow> string \<Rightarrow> (string + string list) \<times> event list" where
  "snapshot e hash =
     (let url = dcrdata e @ ''api/stake/pool/b/'' @ hash @ ''/full?sort=true''
      in (httpGetTickets e url, [HttpGet url]))"

text \<open>One round of the loop of \<^verbatim>\<open>largestCommitmentAddress\<close> over \<^verbatim>\<open>ttx.Vout\<close>, on the pair
  \<^verbatim>\<open>(bestAddr, bestAmount)\<close>.\<close>

definition commitStep :: "string \<times> real \<Rightarrow> Vout \<Rightarrow> string \<times> real" where
  "commitStep best v =
     (case CommitAmt (ScriptPubKeyDecoded v) of
        None \<Rightarrow> best
      | Some amt \<Rightarrow>
          if amt > snd best
          then (case Addresses (ScriptPubKeyDecoded v) of
                  [] \<Rightarrow> best
                | a # as \<Rightarrow> (a, amt))
          else best)"

definition largestCommitment :: "TrimmedTx \<Rightarrow> string + string" where
  "largestCommitment ttx =
     (let best = foldl commitStep ([], 0) (Vout ttx)
      in if fst best = [] \<or> snd best = 0
         then Inl (''no best commitment address found: '' @ TxID ttx)
         else Inr (fst best))"

definition largestCommitmentAddress ::
  "('pk, 'fi) env \<Rightarrow> string \<Rightarrow> (string + string) \<times> event list" where
  "largestCommitmentAddress e hash =
     (let url = dcrdata e @ ''api/tx/'' @ hash
      in (case httpGetTx e url of
            Inl err \<Rightarrow> Inl err
          | Inr ttx \<Rightarrow> largestCommitment ttx,
          [HttpGet url]))"

subsection \<open>pluginStartVote\<close>

definition pluginStartVote :: "('pk, 'fi) env \<Rightarrow> string \<Rightarrow> (string + string) \<times> event list" where
  "pluginStartVote e payload =
    (case DecodeVote e payload of
       Inl err \<Rightarrow> (Inl (''DecodeVote '' @ err), [])
     | Inr vt \<Rightarrow>
    (case ConvertStringToken e (VoteToken vt) of
       Inl err \<Rightarrow> (Inl (''ConvertStringToken '' @ err), [])
     | Inr token \<Rightarrow>
    (case fst (bestBlock e) of
       Inl err \<Rightarrow> (Inl (''bestBlock '' @ err), snd (bestBlock e))
     | Inr bb \<Rightarrow>
    if Height bb < ucast (TicketMaturity e)
    then (Inl ''invalid height'', snd (bestBlock e))
    else
    (let b = Height bb - ucast (TicketMaturity e);
         ev2 = snd (bestBlock e) @ snd (block e b)
     in case fst (block e b) of
       Inl err \<Rightarrow> (Inl (''bestBlock '' @ err), ev2)
     | Inr snapshotBlock \<Rightarrow>
    (let ev3 = ev2 @ snd (snapshot e (Hash snapshotBlock))
     in case fst (snapshot e (Hash snapshotBlock)) of
       Inl err \<Rightarrow> (Inl (''snapshot '' @ err), ev3)
     | Inr snap \<Rightarrow>
    (let duration = (2016 :: 32 word);
         svr = \<lparr> StartBlockHeight = FormatUint (unat (Height snapshotBlock)),
                 StartBlockHash = Hash snapshotBlock,
                 EndHeight = FormatUint (unat (Height snapshotBlock + duration)),
                 EligibleTickets = snap \<rparr>
     in case EncodeStartVoteReply e svr of
       Inl err \<Rightarrow> (Inl (''EncodeStartVoteReply: '' @ err), ev3)
     | Inr svrb \<Rightarrow>
    (let streams = [\<lparr> ID = MDStreamVoteBits e, Payload = payload \<rparr>,
                    \<lparr> ID = MDStreamVoteSnapshot e, Payload = svrb \<rparr>];
         ev4 = ev3 @ [UpdateMetadata token streams]
     in case UpdateVettedMetadata e token streams of
       Some err \<Rightarrow> (Inl (''UpdateVettedMetadata: '' @ err), ev4)
     | None \<Rightarrow> (Inr svrb, ev4))))))))"

subsection \<open>validateVote\<close>

definition validateVote ::
  "('pk, 'fi) env \<Rightarrow> string \<Rightarrow> string \<Rightarrow> string \<Rightarrow> string \<Rightarrow> string option \<times> event list" where
  "validateVote e token ticket votebit signature =
    (case fst (largestCommitmentAddress e ticket) of
       Inl err \<Rightarrow> Some err
     | Inr addr \<Rightarrow>
        (let msg = token @ ticket @ votebit
         in case hexDecodeString e signature of
              Inl err \<Rightarrow> Some err
            | Inr sig \<Rightarrow>
               (case verifyMessage e addr msg (base64EncodeToString e sig) of
                  Inl err \<Rightarrow> Some err
                | Inr validated \<Rightarrow>
                    if \<not> validated then Some ''could not verify message'' else None)),
     snd (largestCommitmentAddress e ticket))"

subsection \<open>pluginCastVotes\<close>

text \<open>
  The ledger of a proposal is the file \<^verbatim>\<open>votes\<close> in the directory of its token. The JSON
  decoder reads it as a stream of values: \<open>Rec v\<close> is a value that decodes to the vote
  \<open>v\<close>, \<open>Corrupt msg\<close> a place where \<^verbatim>\<open>Decode\<close> returns an error other than \<^verbatim>\<open>io.EOF\<close>, with
  text \<open>msg\<close>. The disk maps a token to the stream of its file; a file that does not exist is
  the empty stream (\<^verbatim>\<open>os.O_CREATE\<close>). \<^verbatim>\<open>Encode\<close> either fails or writes the whole value.
  Different tokens name different files.
\<close>

datatype ledger_rec = Rec CastVote | Corrupt string

type_synonym disk = "string \<Rightarrow> ledger_rec list"

text \<open>The variables of \<^verbatim>\<open>pluginCastVotes\<close> and the disk. \<open>dedupVotes\<close> is the Go map with its
  entries in the order of insertion (a key is inserted at most once); \<open>files\<close> maps a token
  to the \<^verbatim>\<open>content\<close> of its open \<^verbatim>\<open>file\<close>; \<open>panicked\<close> holds the text of a panic once one is
  raised.\<close>

record cv_state =
  cbr :: "CastVoteReply list"
  dedupVotes :: "(string \<times> dedupVote) list"
  files :: "string \<rightharpoonup> string set"
  ledgers :: disk
  trace :: "event list"
  panicked :: "string option"

text \<open>The body of the first loop (\<^verbatim>\<open>for k, v := range votes\<close>).\<close>

definition verifyStep :: "('pk, 'fi) env \<Rightarrow> 'fi \<Rightarrow> cv_state \<Rightarrow> nat \<times> CastVote \<Rightarrow> cv_state" where
  "verifyStep e fi s kv =
    (let k = fst kv; v = snd kv;
         key = Token v @ Ticket v
     in if map_of (dedupVotes s) key \<noteq> None
        then s\<lparr> cbr := (cbr s)[k := (cbr s ! k)\<lparr> Error :=
                  ''duplicate vote token '' @ Token v @ '' ticket '' @ Ticket v \<rparr>] \<rparr>
        else
          (let s1 = s\<lparr> cbr := (cbr s)[k := (cbr s ! k)\<lparr> ClientSignature := Signature v \<rparr>],
                       trace := trace s @ ValidateVote k
                                  # snd (validateVote e (Token v) (Ticket v) (VoteBit v) (Signature v)) \<rparr>
           in case fst (validateVote e (Token v) (Ticket v) (VoteBit v) (Signature v)) of
                Some err \<Rightarrow> s1\<lparr> cbr := (cbr s1)[k := (cbr s1 ! k)\<lparr> Error := err \<rparr>] \<rparr>
              | None \<Rightarrow>
                 (let signature = SignMessage e fi (Signature v)
                  in s1\<lparr> cbr := (cbr s1)[k := (cbr s1 ! k)\<lparr> ReplySignature :=
                                hexEncodeToString e signature \<rparr>],
                         dedupVotes := dedupVotes s1 @ [(key, \<lparr> vote = v, index = k \<rparr>)] \<rparr>)))"

text \<open>The inner loops that read a ledger back: \<^verbatim>\<open>d.Decode\<close> until \<^verbatim>\<open>io.EOF\<close>, then the keys
  of the decoded votes. \<open>Inl\<close> and \<open>None\<close> are the panics \<^verbatim>\<open>"zzz "\<close> and \<^verbatim>\<open>"yy"\<close>.\<close>

fun decodeAll :: "ledger_rec list \<Rightarrow> string + CastVote list" where
  "decodeAll [] = Inr []"
| "decodeAll (Corrupt msg # rs) = Inl msg"
| "decodeAll (Rec cv # rs) = (case decodeAll rs of Inl msg \<Rightarrow> Inl msg | Inr cvs \<Rightarrow> Inr (cv # cvs))"

fun recreateKeys :: "CastVote list \<Rightarrow> string set \<Rightarrow> string set option" where
  "recreateKeys [] content = Some content"
| "recreateKeys (vv # cvs) content =
     (let key = Token vv @ Ticket vv
      in if key \<in> content then None else recreateKeys cvs (insert key content))"

text \<open>Opening the ledger of a token: \<open>Inl\<close> is the text of the panic, \<open>Inr\<close> the \<^verbatim>\<open>content\<close>.\<close>

definition openLedger :: "('pk, 'fi) env \<Rightarrow> string \<Rightarrow> ledger_rec list \<Rightarrow> string + string set" where
  "openLedger e tok recs =
     (case OpenFile e tok of
        Some err \<Rightarrow> Inl (''x '' @ err)
      | None \<Rightarrow>
         (case decodeAll recs of
            Inl err \<Rightarrow> Inl (''zzz '' @ err)
          | Inr cvs \<Rightarrow>
             (case recreateKeys cvs {} of
                None \<Rightarrow> Inl ''yy''
              | Some content \<Rightarrow> Inr content)))"

text \<open>The body of the second loop (\<^verbatim>\<open>for _, v := range dedupVotes\<close>). After a panic nothing
  more runs. \<^verbatim>\<open>dedupVotes[key].index\<close> of a missing key is 0.\<close>

definition checkDup :: "('pk, 'fi) env \<Rightarrow> cv_state \<Rightarrow> dedupVote \<Rightarrow> string set \<Rightarrow> cv_state" where
  "checkDup e s v content =
    (let tok = Token (vote v);
         key = Token (vote v) @ Ticket (vote v)
     in if key \<in> content
        then (let idx = (case map_of (dedupVotes s) key of None \<Rightarrow> 0 | Some d \<Rightarrow> index d)
              in s\<lparr> cbr := (cbr s)[idx := (cbr s ! idx)\<lparr> Error :=
                         ''ticket already voted on proposal'' \<rparr>] \<rparr>)
        else
          (case Seek e tok of
             Some err \<Rightarrow> s\<lparr> panicked := Some (''y '' @ err) \<rparr>
           | None \<Rightarrow>
              (case Encode e tok (vote v) of
                 Some err \<Rightarrow> s\<lparr> panicked := Some (''z '' @ err) \<rparr>
               | None \<Rightarrow> s\<lparr> ledgers := (ledgers s)(tok := ledgers s tok @ [Rec (vote v)]),
                             trace := trace s @ [AppendLedger tok (vote v)] \<rparr>)))"

definition ledgerStep :: "('pk, 'fi) env \<Rightarrow> cv_state \<Rightarrow> string \<times> dedupVote \<Rightarrow> cv_state" where
  "ledgerStep e s kv =
    (let v = snd kv; tok = Token (vote v)
     in if panicked s \<noteq> None then s
        else
          (case files s tok of
             Some content \<Rightarrow> checkDup e s v content
           | None \<Rightarrow>
              (let s1 = s\<lparr> trace := trace s @ [OpenLedger tok] \<rparr>
               in case openLedger e tok (ledgers s tok) of
                    Inl msg \<Rightarrow> s1\<lparr> panicked := Some msg \<rparr>
                  | Inr content \<Rightarrow>
                      checkDup e (s1\<lparr> files := (files s1)(tok \<mapsto> content) \<rparr>) v content)))"

text \<open>\<^verbatim>\<open>pluginCastVotes\<close> from \<^verbatim>\<open>cbr := make(...)\<close> to the end of the second loop, for the
  decoded votes and the identity: the first loop, the lock, the shutdown flag, git, the
  second loop. The deferred \<^verbatim>\<open>Unlock\<close> runs on every way out once the lock is held.\<close>

definition emptyReply :: CastVoteReply where
  "emptyReply = \<lparr> ClientSignature = [], ReplySignature = [], Error = [] \<rparr>"

text \<open>The variables when the first loop starts, with \<open>n\<close> replies allocated.\<close>

definition verifyInit :: "nat \<Rightarrow> disk \<Rightarrow> cv_state" where
  "verifyInit n d =
     \<lparr> cbr = replicate n emptyReply, dedupVotes = [], files = Map.empty,
       ledgers = d, trace = [], panicked = None \<rparr>"

definition verifyVotes :: "('pk, 'fi) env \<Rightarrow> 'fi \<Rightarrow> CastVote list \<Rightarrow> disk \<Rightarrow> cv_state" where
  "verifyVotes e fi votes d =
     foldl (verifyStep e fi) (verifyInit (length votes) d) (enumerate 0 votes)"

definition castVotes ::
  "('pk, 'fi) env \<Rightarrow> 'fi \<Rightarrow> CastVote list \<Rightarrow> disk \<Rightarrow> CastVoteReply list outcome \<times> disk \<times> event list" where
  "castVotes e fi votes d =
    (let s1 = verifyVotes e fi votes d
     in case lockLock e of
          Some err \<Rightarrow> (Failed (''pluginCastVotes: lock error try again later: '' @ err), d,
                        trace s1 @ [Lock])
        | None \<Rightarrow>
           if shutdown e then (Failed (ErrShutdown e), d, trace s1 @ [Lock, Unlock])
           else
             (case gitCheckout e of
                Some err \<Rightarrow> (Failed err, d, trace s1 @ [Lock, GitCheckout, Unlock])
              | None \<Rightarrow>
                 (case gitPull e of
                    Some err \<Rightarrow> (Failed err, d, trace s1 @ [Lock, GitCheckout, GitPull, Unlock])
                  | None \<Rightarrow>
                     (let s2 = foldl (ledgerStep e)
                                 (s1\<lparr> trace := trace s1 @ [Lock, GitCheckout, GitPull] \<rparr>)
                                 (rangeMap e (dedupVotes s1))
                      in (case panicked s2 of
                            Some msg \<Rightarrow> Panicked msg
                          | None \<Rightarrow> Returned (cbr s2),
                          ledgers s2, trace s2 @ [Unlock])))))"

definition pluginCastVotes ::
  "('pk, 'fi) env \<Rightarrow> string \<Rightarrow> disk \<Rightarrow> string outcome \<times> disk \<times> event list" where
  "pluginCastVotes e payload d =
    (case DecodeCastVotes e payload of
       Inl err \<Rightarrow> (Failed (''DecodeVote '' @ err), d, [])
     | Inr votes \<Rightarrow>
        (case settings e decredPluginIdentity of
           None \<Rightarrow> (Failed ''full identity not set'', d, [])
         | Some fiJSON \<Rightarrow>
            (case UnmarshalFullIdentity e fiJSON of
               Inl err \<Rightarrow> (Failed err, d, [])
             | Inr fi \<Rightarrow>
                (case castVotes e fi votes d of
                   (Returned replies, d', tr) \<Rightarrow>
                     (case EncodeCastVoteReplies e replies of
                        Inl err \<Rightarrow> (Failed (''Could not encode CastVoteReply '' @ err), d', tr)
                      | Inr reply \<Rightarrow> (Returned reply, d', tr))
                 | (Failed msg, d', tr) \<Rightarrow> (Failed msg, d', tr)
                 | (Panicked msg, d', tr) \<Rightarrow> (Panicked msg, d', tr)))))"

section \<open>Notions used in the statements\<close>

text \<open>An output counts for the choice of \<^verbatim>\<open>largestCommitmentAddress\<close> when it has a positive
  commitment amount and at least one address.\<close>

definition committed :: "Vout \<Rightarrow> bool" where
  "committed v =
     (case CommitAmt (ScriptPubKeyDecoded v) of
        None \<Rightarrow> False
      | Some amt \<Rightarrow> 0 < amt \<and> Addresses (ScriptPubKeyDecoded v) \<noteq> [])"

definition commitAmount :: "Vout \<Rightarrow> real" where
  "commitAmount v = (case CommitAmt (ScriptPubKeyDecoded v) of None \<Rightarrow> 0 | Some amt \<Rightarrow> amt)"

definition firstAddress :: "Vout \<Rightarrow> string" where
  "firstAddress v = (case Addresses (ScriptPubKeyDecoded v) of [] \<Rightarrow> [] | a # as \<Rightarrow> a)"

text \<open>Output \<open>i\<close> is the earliest of the outputs that count with the largest amount: it
  commits strictly more than every such output before it and no less than any other.\<close>

definition earliestLargest :: "Vout list \<Rightarrow> nat \<Rightarrow> bool" where
  "earliestLargest vs i \<longleftrightarrow>
     i < length vs \<and> committed (vs ! i) \<and>
     (\<forall>j<i. committed (vs ! j) \<longrightarrow> commitAmount (vs ! j) < commitAmount (vs ! i)) \<and>
     (\<forall>j<length vs. committed (vs ! j) \<longrightarrow> commitAmount (vs ! j) \<le> commitAmount (vs ! i))"

text \<open>The key under which \<^verbatim>\<open>pluginCastVotes\<close> files a vote, and whether \<^verbatim>\<open>validateVote\<close>
  accepts it.\<close>

definition keyOf :: "CastVote \<Rightarrow> string" where
  "keyOf v = Token v @ Ticket v"

definition validVote :: "('pk, 'fi) env \<Rightarrow> CastVote \<Rightarrow> bool" where
  "validVote e v \<longleftrightarrow>
     fst (validateVote e (Token v) (Ticket v) (VoteBit v) (Signature v)) = None"

text \<open>The keys of the votes of a list that \<^verbatim>\<open>validateVote\<close> accepts. Vote \<open>k\<close> of a batch
  repeats an earlier vote when its key is the key of an accepted vote among the first \<open>k\<close>
  votes.\<close>

definition validKeys :: "('pk, 'fi) env \<Rightarrow> CastVote list \<Rightarrow> string set" where
  "validKeys e vs = set (map keyOf (filter (validVote e) vs))"

definition dupAt :: "('pk, 'fi) env \<Rightarrow> CastVote list \<Rightarrow> nat \<Rightarrow> bool" where
  "dupAt e votes k \<longleftrightarrow> keyOf (votes ! k) \<in> validKeys e (take k votes)"

text \<open>The reply to vote \<open>k\<close> when the first loop ends.\<close>

definition verifyReply :: "('pk, 'fi) env \<Rightarrow> 'fi \<Rightarrow> CastVote list \<Rightarrow> nat \<Rightarrow> CastVoteReply" where
  "verifyReply e fi votes k =
     (let v = votes ! k
      in if dupAt e votes k
         then \<lparr> ClientSignature = [], ReplySignature = [],
                Error = ''duplicate vote token '' @ Token v @ '' ticket '' @ Ticket v \<rparr>
         else (case fst (validateVote e (Token v) (Ticket v) (VoteBit v) (Signature v)) of
                 Some err \<Rightarrow> \<lparr> ClientSignature = Signature v, ReplySignature = [], Error = err \<rparr>
               | None \<Rightarrow> \<lparr> ClientSignature = Signature v,
                           ReplySignature = hexEncodeToString e (SignMessage e fi (Signature v)),
                           Error = [] \<rparr>))"

text \<open>What holds of the variables after the first loop has run over the votes \<open>vs\<close>, with
  \<open>n\<close> replies allocated.\<close>

definition verified ::
  "('pk, 'fi) env \<Rightarrow> 'fi \<Rightarrow> nat \<Rightarrow> disk \<Rightarrow> CastVote list \<Rightarrow> cv_state \<Rightarrow> bool" where
  "verified e fi n d vs s \<longleftrightarrow>
     length (cbr s) = n \<and>
     (\<forall>k<length vs. cbr s ! k = verifyReply e fi vs k) \<and>
     (\<forall>k. length vs \<le> k \<and> k < n \<longrightarrow> cbr s ! k = emptyReply) \<and>
     fst ` set (dedupVotes s) = validKeys e vs \<and>
     (\<forall>x\<in>set (dedupVotes s). fst x = keyOf (vote (snd x)) \<and> index (snd x) < length vs \<and>
          vote (snd x) = vs ! index (snd x) \<and> validVote e (vote (snd x)) \<and>
          \<not> dupAt e vs (index (snd x))) \<and>
     (\<forall>k<length vs. \<not> dupAt e vs k \<and> validVote e (vs ! k) \<longrightarrow>
          (keyOf (vs ! k), \<lparr> vote = vs ! k, index = k \<rparr>) \<in> set (dedupVotes s)) \<and>
     distinct (map fst (dedupVotes s)) \<and>
     (\<forall>k. ValidateVote k \<in> set (trace s) \<longleftrightarrow> k < length vs \<and> \<not> dupAt e vs k) \<and>
     (\<forall>ev\<in>set (trace s). (\<exists>k. ev = ValidateVote k) \<or> (\<exists>u. ev = HttpGet u)) \<and>
     files s = Map.empty \<and> ledgers s = d \<and> panicked s = None"

text \<open>The votes that a ledger holds, and whether every value of it decodes.\<close>

fun entries :: "ledger_rec list \<Rightarrow> CastVote list" where
  "entries [] = []"
| "entries (Rec v # rs) = v # entries rs"
| "entries (Corrupt msg # rs) = entries rs"

fun noCorrupt :: "ledger_rec list \<Rightarrow> bool" where
  "noCorrupt [] = True"
| "noCorrupt (Rec v # rs) = noCorrupt rs"
| "noCorrupt (Corrupt msg # rs) = False"

text \<open>The key of a vote is the key of a vote in the ledger of its token.\<close>

definition inLedger :: "disk \<Rightarrow> CastVote \<Rightarrow> bool" where
  "inLedger d v \<longleftrightarrow> keyOf v \<in> keyOf ` set (entries (d (Token v)))"

definition alreadyVoted :: string where
  "alreadyVoted = ''ticket already voted on proposal''"

text \<open>What the second loop has added to the ledger of a token once it has gone through the
  entries \<open>pre\<close> of \<^verbatim>\<open>dedupVotes\<close>, on the disk \<open>d0\<close> it started from: the votes on that token
  whose key the ledger did not hold, in the order of the visit.\<close>

definition appended :: "disk \<Rightarrow> string \<Rightarrow> (string \<times> dedupVote) list \<Rightarrow> ledger_rec list" where
  "appended d0 tok pre =
     map Rec (filter (\<lambda>v. Token v = tok \<and> \<not> inLedger d0 v) (map (\<lambda>x. vote (snd x)) pre))"

text \<open>What holds of the variables and the disk once the second loop, started in state \<open>s0\<close>
  on the disk \<open>d0\<close>, has gone through the entries \<open>pre\<close>.\<close>

definition ledgered ::
  "('pk, 'fi) env \<Rightarrow> disk \<Rightarrow> cv_state \<Rightarrow> (string \<times> dedupVote) list \<Rightarrow> cv_state \<Rightarrow> bool" where
  "ledgered e d0 s0 pre s \<longleftrightarrow>
     dedupVotes s = dedupVotes s0 \<and>
     length (cbr s) = length (cbr s0) \<and>
     (\<forall>tok. ledgers s tok = d0 tok @ appended d0 tok pre) \<and>
     (\<forall>k<length (cbr s0). cbr s ! k =
         (if \<exists>x\<in>set pre. index (snd x) = k \<and> inLedger d0 (vote (snd x))
          then (cbr s0 ! k)\<lparr> Error := alreadyVoted \<rparr> else cbr s0 ! k)) \<and>
     (\<forall>tok c. files s tok = Some c \<longrightarrow> openLedger e tok (d0 tok) = Inr c) \<and>
     (\<forall>x\<in>set pre. files s (Token (vote (snd x))) \<noteq> None) \<and>
     (\<forall>ev\<in>set (trace s). ev \<in> set (trace s0) \<or> (\<exists>tok. ev = OpenLedger tok) \<or>
         (\<exists>x\<in>set pre. ev = AppendLedger (Token (vote (snd x))) (vote (snd x))))"

text \<open>The order of \<^verbatim>\<open>range\<close> over a map visits every entry of the map once.\<close>

definition rangeOK :: "('pk, 'fi) env \<Rightarrow> bool" where
  "rangeOK e \<longleftrightarrow> (\<forall>xs. mset (rangeMap e xs) = mset xs)"

text \<open>The state in which the second loop starts: the lock is held and git has run.\<close>

definition lockedState :: "cv_state \<Rightarrow> cv_state" where
  "lockedState s = s\<lparr> trace := trace s @ [Lock, GitCheckout, GitPull] \<rparr>"

text \<open>The reply to vote \<open>k\<close> when both loops have run on the disk \<open>d\<close>.\<close>

definition finalReply ::
  "('pk, 'fi) env \<Rightarrow> 'fi \<Rightarrow> disk \<Rightarrow> CastVote list \<Rightarrow> nat \<Rightarrow> CastVoteReply" where
  "finalReply e fi d votes k =
     (if \<not> dupAt e votes k \<and> validVote e (votes ! k) \<and> inLedger d (votes ! k)
      then (verifyReply e fi votes k)\<lparr> Error := alreadyVoted \<rparr>
      else verifyReply e fi votes k)"

text \<open>The errors of \<^verbatim>\<open>http.Get\<close>, of the JSON decoder and of \<^verbatim>\<open>hex.DecodeString\<close>, which
  \<^verbatim>\<open>validateVote\<close> passes on as they are, have a text that is not empty (as every error of
  these Go packages has).\<close>

definition libErrorsNonempty :: "('pk, 'fi) env \<Rightarrow> bool" where
  "libErrorsNonempty e \<longleftrightarrow> (\<forall>u. httpGetTx e u \<noteq> Inl []) \<and> (\<forall>s. hexDecodeString e s \<noteq> Inl [])"

text \<open>How many entries of the ledger of the proposal \<open>T\<close> are votes of the ticket \<open>K\<close> on
  \<open>T\<close>, and the disk after a sequence of calls of \<^verbatim>\<open>pluginCastVotes\<close>, each with the
  environment it runs in and its payload. A call that fails or panics leaves the disk as it
  was when it stopped, and the next call starts from there.\<close>

definition ledgerCount :: "disk \<Rightarrow> string \<Rightarrow> string \<Rightarrow> nat" where
  "ledgerCount d T K = length (filter (\<lambda>v. Token v = T \<and> Ticket v = K) (entries (d T)))"

fun castVotesCalls :: "(('pk, 'fi) env \<times> string) list \<Rightarrow> disk \<Rightarrow> disk" where
  "castVotesCalls [] d = d"
| "castVotesCalls (c # cs) d = castVotesCalls cs (fst (snd (pluginCastVotes (fst c) (snd c) d)))"

section \<open>An example environment\<close>

text \<open>
  A small environment on which the model runs, for the examples below. Addresses are the
  texts that start with \<open>Ds\<close> (pay-to-pubkey-hash) or \<open>Dc\<close> (script hash). The
  encodings are identity maps, the hash of a signed message is the message, and the
  signature of a message by the holder of an address is the address followed by the
  message: recovery fails on any other text, and the recovered key is rejected unless it
  starts with \<open>Ds\<close>. Tickets \<open>T1\<close>, \<open>T2\<close> and \<open>T3\<close> have a purchase transaction; the best
  block has the height given.
\<close>

definition ex_tx1 :: TrimmedTx where
  "ex_tx1 = \<lparr> TxID = ''T1'', Vout =
     [\<lparr> ScriptPubKeyDecoded = \<lparr> CommitAmt = None, Addresses = [''DsStake''] \<rparr> \<rparr>,
      \<lparr> ScriptPubKeyDecoded = \<lparr> CommitAmt = Some 5, Addresses = [''DsAlice''] \<rparr> \<rparr>] \<rparr>"

definition ex_tx2 :: TrimmedTx where
  "ex_tx2 = \<lparr> TxID = ''T2'', Vout =
     [\<lparr> ScriptPubKeyDecoded = \<lparr> CommitAmt = Some 2, Addresses = [''DsCarol''] \<rparr> \<rparr>,
      \<lparr> ScriptPubKeyDecoded = \<lparr> CommitAmt = Some 7, Addresses = [''DsBobby'', ''DsCarol''] \<rparr> \<rparr>,
      \<lparr> ScriptPubKeyDecoded = \<lparr> CommitAmt = Some 7, Addresses = [''DsDavid''] \<rparr> \<rparr>,
      \<lparr> ScriptPubKeyDecoded = \<lparr> CommitAmt = Some 9, Addresses = [] \<rparr> \<rparr>] \<rparr>"

definition ex_tx3 :: TrimmedTx where
  "ex_tx3 = \<lparr> TxID = ''T3'', Vout =
     [\<lparr> ScriptPubKeyDecoded = \<lparr> CommitAmt = Some 5, Addresses = [[]] \<rparr> \<rparr>] \<rparr>"

definition ex_txs :: "(string \<times> TrimmedTx) list" where
  "ex_txs =
    [(''https://dcrdata.org:443/api/tx/T1'', ex_tx1),
     (''https://dcrdata.org:443/api/tx/T2'', ex_tx2),
     (''https://dcrdata.org:443/api/tx/T3'', ex_tx3)]"

definition ex_env :: "32 word \<Rightarrow> (string, string) env" where
  "ex_env best =
    \<lparr> settings = [''dcrdata'' \<mapsto> ''https://dcrdata.org:443/'', ''fullidentity'' \<mapsto> ''{id}''],
      TicketMaturity = 16,
      httpGetBlock = (\<lambda>url.
         if url = ''https://dcrdata.org:443/api/block/best''
         then Inr \<lparr> Height = best, Hash = ''hashB'' \<rparr>
         else if url = ''https://dcrdata.org:443/api/block/'' @ FormatUint (unat (best - 16))
         then Inr \<lparr> Height = best - 16, Hash = ''hashS'' \<rparr>
         else Inl ''EOF''),
      httpGetTickets = (\<lambda>url.
         if url = ''https://dcrdata.org:443/api/stake/pool/b/hashS/full?sort=true''
         then Inr [''T1'', ''T2''] else Inl ''EOF''),
      httpGetTx = (\<lambda>url. case map_of ex_txs url of None \<Rightarrow> Inl ''EOF'' | Some ttx \<Rightarrow> Inr ttx),
      DecodeAddress = (\<lambda>a.
         if take 2 a = ''Ds'' then Inr (AddressPubKeyHash a)
         else if take 2 a = ''Dc'' then Inr (AddressScriptHash a)
         else Inl ''checksum mismatch''),
      WriteVarString = (\<lambda>s. s),
      HashB = (\<lambda>b. drop 23 b),
      RecoverCompact = (\<lambda>sig hash.
         if drop 7 sig = hash then Inr (take 7 sig, True) else Inl ''invalid compact signature''),
      SerializeCompressed = (\<lambda>pk. pk),
      SerializeUncompressed = (\<lambda>pk. pk),
      NewAddressSecpPubKey = (\<lambda>s.
         if take 2 s = ''Ds'' then Inr (AddressSecpPubKey s) else Inl ''invalid pubkey''),
      base64DecodeString = (\<lambda>s. if CHR ''!'' \<in> set s then Inl ''illegal base64 data'' else Inr s),
      base64EncodeToString = (\<lambda>s. s),
      hexDecodeString = (\<lambda>s. if CHR ''!'' \<in> set s then Inl ''encoding/hex: invalid byte'' else Inr s),
      hexEncodeToString = (\<lambda>s. s),
      DecodeVote = (\<lambda>p. if p = [] then Inl ''unexpected end of JSON input'' else Inr \<lparr> VoteToken = p \<rparr>),
      ConvertStringToken = (\<lambda>t. Inr t),
      EncodeStartVoteReply = (\<lambda>r. Inr (StartBlockHeight r @ ''-'' @ EndHeight r)),
      MDStreamVoteBits = 14,
      MDStreamVoteSnapshot = 15,
      UpdateVettedMetadata = (\<lambda>t ms. None),
      DecodeCastVotes = (\<lambda>p.
         if p = [] then Inl ''unexpected end of JSON input''
         else Inr [\<lparr> Token = ''abc123'', Ticket = ''T1'', VoteBit = ''1'', Signature = p \<rparr>]),
      EncodeCastVoteReplies = (\<lambda>rs. Inr (concat (map Error rs))),
      UnmarshalFullIdentity = (\<lambda>j. if j = ''{id}'' then Inr ''id'' else Inl ''invalid character''),
      SignMessage = (\<lambda>fi m. fi @ m),
      lockLock = None,
      shutdown = False,
      ErrShutdown = ''backend is shutdown'',
      gitCheckout = None,
      gitPull = None,
      OpenFile = (\<lambda>t. None),
      Seek = (\<lambda>t. None),
      Encode = (\<lambda>t v. None),
      rangeMap = rev \<rparr>"

text \<open>Votes on the proposals \<open>abc123\<close> and \<open>def456\<close>: by ticket \<open>T1\<close>, signed by its
  holder; by ticket \<open>T2\<close> with a signature over another vote bit, and with the right
  signature; by ticket \<open>T2\<close> on the second proposal. A disk whose ledger of \<open>abc123\<close> holds
  the first vote, and one where that ledger cannot be decoded.\<close>

definition ex_vote1 :: CastVote where
  "ex_vote1 = \<lparr> Token = ''abc123'', Ticket = ''T1'', VoteBit = ''1'',
                Signature = ''DsAliceabc123T11'' \<rparr>"

definition ex_vote2_tampered :: CastVote where
  "ex_vote2_tampered = \<lparr> Token = ''abc123'', Ticket = ''T2'', VoteBit = ''1'',
                         Signature = ''DsBobbyabc123T20'' \<rparr>"

definition ex_vote2 :: CastVote where
  "ex_vote2 = \<lparr> Token = ''abc123'', Ticket = ''T2'', VoteBit = ''1'',
                Signature = ''DsBobbyabc123T21'' \<rparr>"

definition ex_vote3 :: CastVote where
  "ex_vote3 = \<lparr> Token = ''def456'', Ticket = ''T2'', VoteBit = ''1'',
                Signature = ''DsBobbydef456T21'' \<rparr>"

definition ex_disk_empty :: disk where
  "ex_disk_empty = (\<lambda>tok. [])"

definition ex_disk_voted :: disk where
  "ex_disk_voted = (\<lambda>tok. if tok = ''abc123'' then [Rec ex_vote1] else [])"

definition ex_disk_corrupt :: disk where
  "ex_disk_corrupt =
     (\<lambda>tok. if tok = ''abc123'' then [Corrupt ''invalid character x''] else [])"

text \<open>The disk once the votes of \<open>T1\<close> and \<open>T2\<close> on \<open>abc123\<close> and of \<open>T2\<close> on \<open>def456\<close>
  have been written, the map of votes visited from its last entry to its first.\<close>

definition ex_disk_after :: disk where
  "ex_disk_after = (\<lambda>tok. if tok = ''abc123'' then [Rec ex_vote2, Rec ex_vote1]
                          else if tok = ''def456'' then [Rec ex_vote3] else [])"

section \<open>Properties\<close>

subsection \<open>verifyMessage\<close>

text \<open>
  Claim C5, as the code has it. For every address that decodes to a pay-to-pubkey-hash
  address, every message and every signature that is well-formed base64: if the recovery of
  the public key fails, or the reconstruction of an address from the recovered key fails,
  \<^verbatim>\<open>verifyMessage\<close> returns \<^verbatim>\<open>false\<close> with a nil error. For an address that does not
  decode, and for an address that decodes to another kind than pay-to-pubkey-hash,
  \<^verbatim>\<open>verifyMessage\<close> returns an error, whatever the message and the signature are: the
  signature is not decoded and no recovery is attempted.
\<close>

theorem verifyMessage_recovery_failure_not_fatal:
  "(\<forall>a sig. DecodeAddress e addr = Inr a \<and> isAddressPubKeyHash a \<and>
       base64DecodeString e signature = Inr sig \<and> recoveryFails e sig message \<longrightarrow>
       verifyMessage e addr message signature = Inr False) \<and>
   (\<forall>err. DecodeAddress e addr = Inl err \<longrightarrow>
       verifyMessage e addr message signature = Inl (''Could not decode address: '' @ err)) \<and>
   (\<forall>a. DecodeAddress e addr = Inr a \<and> \<not> isAddressPubKeyHash a \<longrightarrow>
       verifyMessage e addr message signature
         = Inl (''Address is not a pay-to-pubkey-hash address: '' @ addr))"
proof (intro conjI allI impI)
  fix a sig
  assume "DecodeAddress e addr = Inr a \<and> isAddressPubKeyHash a \<and>
       base64DecodeString e signature = Inr sig \<and> recoveryFails e sig message"
  then show "verifyMessage e addr message signature = Inr False"
    by (auto simp: verifyMessage_def recoveryFails_def expectedMessageHash_def Let_def
          split: sum.splits prod.splits if_splits)
next
  fix err
  assume "DecodeAddress e addr = Inl err"
  then show "verifyMessage e addr message signature = Inl (''Could not decode address: '' @ err)"
    by (simp add: verifyMessage_def)
next
  fix a
  assume "DecodeAddress e addr = Inr a \<and> \<not> isAddressPubKeyHash a"
  then show "verifyMessage e addr message signature
         = Inl (''Address is not a pay-to-pubkey-hash address: '' @ addr)"
    by (simp add: verifyMessage_def)
qed

text \<open>Instances: a signature that recovers a key from which no address can be built, on a
  pay-to-pubkey-hash address; the same signature on a text that is no address; and on a
  script-hash address.\<close>

theorem verifyMessage_recovery_failure_witness:
  "DecodeAddress (ex_env 100) ''DsAlice'' = Inr (AddressPubKeyHash ''DsAlice'') \<and>
   base64DecodeString (ex_env 100) ''XxAlicemsg'' = Inr ''XxAlicemsg'' \<and>
   recoveryFails (ex_env 100) ''XxAlicemsg'' ''msg'' \<and>
   verifyMessage (ex_env 100) ''DsAlice'' ''msg'' ''XxAlicemsg'' = Inr False \<and>
   DecodeAddress (ex_env 100) ''notanaddress'' = Inl ''checksum mismatch'' \<and>
   verifyMessage (ex_env 100) ''notanaddress'' ''msg'' ''XxAlicemsg''
     = Inl ''Could not decode address: checksum mismatch'' \<and>
   DecodeAddress (ex_env 100) ''DcScript'' = Inr (AddressScriptHash ''DcScript'') \<and>
   verifyMessage (ex_env 100) ''DcScript'' ''msg'' ''XxAlicemsg''
     = Inl ''Address is not a pay-to-pubkey-hash address: DcScript''"
  using verifyMessage_recovery_failure_not_fatal
      [of "ex_env 100" "''DsAlice''" "''XxAlicemsg''" "''msg''"]
    verifyMessage_recovery_failure_not_fatal
      [of "ex_env 100" "''notanaddress''" "''XxAlicemsg''" "''msg''"]
    verifyMessage_recovery_failure_not_fatal
      [of "ex_env 100" "''DcScript''" "''XxAlicemsg''" "''msg''"]
  by (simp add: ex_env_def recoveryFails_def expectedMessageHash_def)

text \<open>Claim C5 as stated, for every address, fails. The signature is well-formed and its
  recovery fails, and the call returns an error instead of \<^verbatim>\<open>false\<close> with a nil error: on
  an address that does not decode, and on an address that decodes to a script hash.\<close>

theorem verifyMessage_undecodable_address_counterexample:
  "base64DecodeString (ex_env 100) ''c2ln'' = Inr ''c2ln'' \<and>
   recoveryFails (ex_env 100) ''c2ln'' ''msg'' \<and>
   verifyMessage (ex_env 100) ''notanaddress'' ''msg'' ''c2ln''
     = Inl ''Could not decode address: checksum mismatch'' \<and>
   verifyMessage (ex_env 100) ''DcScript'' ''msg'' ''c2ln''
     = Inl ''Address is not a pay-to-pubkey-hash address: DcScript''"
  by (simp add: ex_env_def recoveryFails_def expectedMessageHash_def verifyMessage_def)

subsection \<open>largestCommitmentAddress\<close>

lemma earliestLargest_unique:
  assumes "earliestLargest vs i" "earliestLargest vs j"
  shows "i = j"
proof (rule ccontr)
  assume "i \<noteq> j"
  then consider "i < j" | "j < i" by linarith
  then show False
  proof cases
    case 1
    with assms have "commitAmount (vs ! i) < commitAmount (vs ! j)"
      "commitAmount (vs ! j) \<le> commitAmount (vs ! i)"
      by (auto simp: earliestLargest_def)
    then show False by simp
  next
    case 2
    with assms have "commitAmount (vs ! j) < commitAmount (vs ! i)"
      "commitAmount (vs ! i) \<le> commitAmount (vs ! j)"
      by (auto simp: earliestLargest_def)
    then show False by simp
  qed
qed

lemma commitStep_fold:
  "if (\<exists>v\<in>set vs. committed v)
   then (\<exists>i. earliestLargest vs i \<and>
          foldl commitStep ([], 0) vs = (firstAddress (vs ! i), commitAmount (vs ! i)))
   else foldl commitStep ([], 0) vs = ([], 0)"
proof (induction vs rule: rev_induct)
  case Nil
  show ?case by simp
next
  case (snoc x vs)
  show ?case
  proof (cases "\<exists>v\<in>set vs. committed v")
    case False
    with snoc have start: "foldl commitStep ([], 0) vs = ([], 0)" by simp
    show ?thesis
    proof (cases "committed x")
      case True
      from False have "earliestLargest (vs @ [x]) (length vs)"
        using True by (auto simp: earliestLargest_def nth_append)
      moreover have "commitStep ([], 0) x = (firstAddress x, commitAmount x)"
        using True
        by (auto simp: commitStep_def committed_def firstAddress_def commitAmount_def
              split: option.splits list.splits)
      ultimately show ?thesis using True start
        by (auto intro!: exI [of _ "length vs"])
    next
      case nc: False
      have "commitStep ([], 0) x = ([], 0)"
        using nc
        by (auto simp: commitStep_def committed_def split: option.splits list.splits)
      with False nc start show ?thesis by simp
    qed
  next
    case True
    with snoc obtain i where i: "earliestLargest vs i"
      and f: "foldl commitStep ([], 0) vs = (firstAddress (vs ! i), commitAmount (vs ! i))"
      by auto
    from i have il: "i < length vs" and ci: "committed (vs ! i)"
      by (auto simp: earliestLargest_def)
    from ci have pos: "0 < commitAmount (vs ! i)"
      by (auto simp: committed_def commitAmount_def split: option.splits)
    show ?thesis
    proof (cases "committed x \<and> commitAmount (vs ! i) < commitAmount x")
      case big: True
      have "earliestLargest (vs @ [x]) (length vs)"
        using big i unfolding earliestLargest_def
        by (auto simp: nth_append less_Suc_eq)
      moreover have "commitStep (firstAddress (vs ! i), commitAmount (vs ! i)) x
                       = (firstAddress x, commitAmount x)"
        using big
        by (auto simp: commitStep_def committed_def firstAddress_def commitAmount_def
              split: option.splits list.splits)
      ultimately show ?thesis using True f
        by (auto intro!: exI [of _ "length vs"])
    next
      case small: False
      have keep: "commitStep (firstAddress (vs ! i), commitAmount (vs ! i)) x
                    = (firstAddress (vs ! i), commitAmount (vs ! i))"
        using small pos
        by (auto simp: commitStep_def committed_def commitAmount_def
              split: option.splits list.splits)
      have "earliestLargest (vs @ [x]) i"
        using small i unfolding earliestLargest_def
        by (auto simp: nth_append less_Suc_eq)
      then show ?thesis using True f keep il
        by (auto intro!: exI [of _ i] simp: nth_append)
    qed
  qed
qed


lemma largestCommitment_Inr:
  "largestCommitment ttx = Inr a \<longleftrightarrow>
     (\<exists>i. earliestLargest (Vout ttx) i \<and> a = firstAddress (Vout ttx ! i) \<and> a \<noteq> [])"
proof (cases "\<exists>v\<in>set (Vout ttx). committed v")
  case False
  then have "foldl commitStep ([], 0) (Vout ttx) = ([], 0)"
    using commitStep_fold [of "Vout ttx"] by simp
  moreover have "\<not> (\<exists>i. earliestLargest (Vout ttx) i)"
    using False by (auto simp: earliestLargest_def)
  ultimately show ?thesis by (simp add: largestCommitment_def)
next
  case True
  then obtain i where i: "earliestLargest (Vout ttx) i"
    and f: "foldl commitStep ([], 0) (Vout ttx)
              = (firstAddress (Vout ttx ! i), commitAmount (Vout ttx ! i))"
    using commitStep_fold [of "Vout ttx"] by auto
  from i have "0 < commitAmount (Vout ttx ! i)"
    by (auto simp: earliestLargest_def committed_def commitAmount_def split: option.splits)
  then have "largestCommitment ttx = Inr a \<longleftrightarrow> a = firstAddress (Vout ttx ! i) \<and> a \<noteq> []"
    using f by (auto simp: largestCommitment_def)
  then show ?thesis
    using i earliestLargest_unique [OF i] by blast
qed

lemma largestCommitment_cases:
  "(\<exists>a. largestCommitment ttx = Inr a) \<or>
   largestCommitment ttx = Inl (''no best commitment address found: '' @ TxID ttx)"
  by (simp add: largestCommitment_def Let_def)

text \<open>
  Claim C9, as the code has it. For a transaction that the lookup returns, the call
  returns the first address of the earliest output with the largest commitment amount among
  the outputs that have a positive commitment amount and at least one address (outputs
  without an address are passed over), provided that address is not the empty text; it
  fails exactly when no output has a positive commitment amount with a non-empty address
  list, or the first address of that earliest largest output is the empty text.
\<close>

theorem largestCommitmentAddress_earliest_largest:
  assumes "httpGetTx e (dcrdata e @ ''api/tx/'' @ hash) = Inr ttx"
  shows "(fst (largestCommitmentAddress e hash) = Inr a \<longleftrightarrow>
            (\<exists>i. earliestLargest (Vout ttx) i \<and> a = firstAddress (Vout ttx ! i) \<and> a \<noteq> []))
       \<and> (isl (fst (largestCommitmentAddress e hash)) \<longleftrightarrow>
            \<not> (\<exists>v\<in>set (Vout ttx). committed v) \<or>
            (\<exists>i. earliestLargest (Vout ttx) i \<and> firstAddress (Vout ttx ! i) = []))"
proof -
  have r: "fst (largestCommitmentAddress e hash) = largestCommitment ttx"
    using assms by (simp add: largestCommitmentAddress_def)
  have "isl (largestCommitment ttx) \<longleftrightarrow> \<not> (\<exists>a. largestCommitment ttx = Inr a)"
    by (cases "largestCommitment ttx") auto
  also have "\<dots> \<longleftrightarrow> \<not> (\<exists>i. earliestLargest (Vout ttx) i \<and> firstAddress (Vout ttx ! i) \<noteq> [])"
    by (simp add: largestCommitment_Inr)
  also have "\<dots> \<longleftrightarrow> \<not> (\<exists>v\<in>set (Vout ttx). committed v) \<or>
            (\<exists>i. earliestLargest (Vout ttx) i \<and> firstAddress (Vout ttx ! i) = [])"
  proof (cases "\<exists>v\<in>set (Vout ttx). committed v")
    case False
    then show ?thesis by (auto simp: earliestLargest_def)
  next
    case True
    then obtain i where i: "earliestLargest (Vout ttx) i"
      using commitStep_fold [of "Vout ttx"] by auto
    show ?thesis using True i earliestLargest_unique [OF i] by blast
  qed
  finally show ?thesis using r by (simp add: largestCommitment_Inr)
qed

text \<open>An instance: of two outputs that commit 7, the earlier one wins; the output that
  commits 9 has no address and is passed over.\<close>

theorem largestCommitmentAddress_earliest_largest_witness:
  "httpGetTx (ex_env 100) (dcrdata (ex_env 100) @ ''api/tx/'' @ ''T2'') = Inr ex_tx2 \<and>
   fst (largestCommitmentAddress (ex_env 100) ''T2'') = Inr ''DsBobby''"
proof -
  have look: "httpGetTx (ex_env 100) (dcrdata (ex_env 100) @ ''api/tx/'' @ ''T2'') = Inr ex_tx2"
    by (simp add: ex_env_def dcrdata_def ex_txs_def)
  have el: "earliestLargest (Vout ex_tx2) 1"
    by (simp add: earliestLargest_def ex_tx2_def committed_def commitAmount_def less_Suc_eq
          all_conj_distrib numeral_3_eq_3 numeral_2_eq_2)
  show ?thesis
    using largestCommitmentAddress_earliest_largest [OF look, of "''DsBobby''"] el look
    by (auto simp: ex_tx2_def firstAddress_def)
qed

text \<open>Claim C9 as stated fails: the only output of this transaction has a positive
  commitment amount and a non-empty address list, and the call fails, since the first
  address is the empty text.\<close>

theorem largestCommitmentAddress_empty_address_counterexample:
  "httpGetTx (ex_env 100) (dcrdata (ex_env 100) @ ''api/tx/'' @ ''T3'') = Inr ex_tx3 \<and>
   list_ex committed (Vout ex_tx3) \<and>
   fst (largestCommitmentAddress (ex_env 100) ''T3'')
     = Inl ''no best commitment address found: T3''"
  by (simp add: ex_env_def dcrdata_def ex_txs_def ex_tx3_def committed_def
        largestCommitmentAddress_def largestCommitment_def commitStep_def)

subsection \<open>pluginStartVote\<close>

lemma ucast_maturity: "unat (ucast (m :: 16 word) :: 32 word) = unat m"
proof -
  have "unat m < 2 ^ 16" using unsigned_less [of m] by simp
  then have "unat m < 2 ^ 32" by simp
  then show ?thesis by (simp add: unsigned_ucast_eq take_bit_nat_eq_self)
qed

lemma lt_maturity: "(h :: 32 word) < ucast (m :: 16 word) \<longleftrightarrow> unat h < unat m"
  by (simp add: word_less_nat_alt ucast_maturity)

lemma FormatUint_0: "FormatUint 0 = ''0''"
  by (simp add: FormatUint.simps digit10_def)

text \<open>
  Claim C6. Once the payload and its token decode and the best block is fetched,
  \<^verbatim>\<open>pluginStartVote\<close> fails with \<^verbatim>\<open>invalid height\<close> exactly when the height of the best
  block is strictly less than the ticket maturity; it has then made no request but the one
  for the best block (no block or snapshot fetch, no metadata write). When the height
  equals the maturity it does not fail so, and goes on to fetch the block at height 0.
\<close>

theorem pluginStartVote_invalid_height:
  assumes "DecodeVote e payload = Inr vt"
    and "ConvertStringToken e (VoteToken vt) = Inr token"
    and "httpGetBlock e (dcrdata e @ ''api/block/best'') = Inr bb"
  shows "(fst (pluginStartVote e payload) = Inl ''invalid height''
            \<longleftrightarrow> unat (Height bb) < unat (TicketMaturity e))
       \<and> (unat (Height bb) < unat (TicketMaturity e) \<longrightarrow>
            snd (pluginStartVote e payload) = [HttpGet (dcrdata e @ ''api/block/best'')])
       \<and> (unat (Height bb) = unat (TicketMaturity e) \<longrightarrow>
            fst (pluginStartVote e payload) \<noteq> Inl ''invalid height'' \<and>
            HttpGet (dcrdata e @ ''api/block/0'') \<in> set (snd (pluginStartVote e payload)))"
proof -
  have eq0: "unat (Height bb) = unat (TicketMaturity e) \<Longrightarrow> Height bb - ucast (TicketMaturity e) = 0"
    by (metis ucast_maturity word_unat_eq_iff right_minus_eq)
  show ?thesis
    using assms eq0
    by (auto simp: pluginStartVote_def bestBlock_def block_def snapshot_def Let_def lt_maturity
          FormatUint_0 split: sum.splits option.splits)
qed


text \<open>Instances: best height 15 and 16 with maturity 16.\<close>

theorem pluginStartVote_invalid_height_witness:
  "fst (pluginStartVote (ex_env 15) ''abc123'') = Inl ''invalid height'' \<and>
   snd (pluginStartVote (ex_env 15) ''abc123'')
     = [HttpGet ''https://dcrdata.org:443/api/block/best''] \<and>
   fst (pluginStartVote (ex_env 16) ''abc123'') \<noteq> Inl ''invalid height'' \<and>
   HttpGet ''https://dcrdata.org:443/api/block/0''
     \<in> set (snd (pluginStartVote (ex_env 16) ''abc123''))"
  using pluginStartVote_invalid_height [of "ex_env 15" "''abc123''" "\<lparr> VoteToken = ''abc123'' \<rparr>"
      "''abc123''" "\<lparr> Height = 15, Hash = ''hashB'' \<rparr>"]
    pluginStartVote_invalid_height [of "ex_env 16" "''abc123''" "\<lparr> VoteToken = ''abc123'' \<rparr>"
      "''abc123''" "\<lparr> Height = 16, Hash = ''hashB'' \<rparr>"]
  by (simp add: ex_env_def dcrdata_def)

text \<open>
  Claim C7, as the code has it. Let a call of \<^verbatim>\<open>pluginStartVote\<close> succeed with best height
  \<open>H\<close> and maturity \<open>M\<close>, and let the block that dcrdata returns for height \<open>H - M\<close> report
  that height. Then \<open>M \<le> H\<close> and the reply is the encoding of the session whose start
  height is \<open>H - M\<close>, whose start hash is the hash of that block, whose end height is
  \<open>H - M + 2016\<close> reduced modulo \<open>2^32\<close> (the sum is computed in \<^verbatim>\<open>uint32\<close>), and whose
  tickets are the ticket pool that dcrdata returns for that hash.
\<close>

theorem pluginStartVote_session:
  assumes "fst (pluginStartVote e payload) = Inr reply"
    and "httpGetBlock e (dcrdata e @ ''api/block/best'') = Inr bb"
    and "httpGetBlock e (dcrdata e @ ''api/block/''
           @ FormatUint (unat (Height bb) - unat (TicketMaturity e))) = Inr sb"
    and "unat (Height sb) = unat (Height bb) - unat (TicketMaturity e)"
    and "httpGetTickets e (dcrdata e @ ''api/stake/pool/b/'' @ Hash sb @ ''/full?sort=true'')
           = Inr tickets"
  shows "unat (TicketMaturity e) \<le> unat (Height bb) \<and>
     EncodeStartVoteReply e
       \<lparr> StartBlockHeight = FormatUint (unat (Height bb) - unat (TicketMaturity e)),
         StartBlockHash = Hash sb,
         EndHeight = FormatUint ((unat (Height bb) - unat (TicketMaturity e) + 2016) mod 2 ^ 32),
         EligibleTickets = tickets \<rparr> = Inr reply"
proof -
  have ge: "unat (TicketMaturity e) \<le> unat (Height bb)"
    using assms(1,2)
    by (auto simp: pluginStartVote_def bestBlock_def lt_maturity split: sum.splits if_splits)
  then have sub: "unat (Height bb - ucast (TicketMaturity e)) = unat (Height bb) - unat (TicketMaturity e)"
    by (simp add: unat_sub word_le_nat_alt ucast_maturity)
  have add: "unat (Height sb + 2016) = (unat (Height bb) - unat (TicketMaturity e) + 2016) mod 2 ^ 32"
    using assms(4) by (simp add: unat_word_ariths)
  show ?thesis
    using assms ge
    by (auto simp: pluginStartVote_def bestBlock_def block_def snapshot_def Let_def lt_maturity
          sub add split: sum.splits option.splits if_splits)
qed

text \<open>An instance: best height 100, maturity 16.\<close>

theorem pluginStartVote_session_witness:
  "fst (pluginStartVote (ex_env 100) ''abc123'') = Inr ''84-2100'' \<and>
   EncodeStartVoteReply (ex_env 100)
       \<lparr> StartBlockHeight = FormatUint 84, StartBlockHash = ''hashS'',
         EndHeight = FormatUint 2100, EligibleTickets = [''T1'', ''T2''] \<rparr> = Inr ''84-2100''"
proof -
  let ?e = "ex_env 100"
  let ?bb = "\<lparr> Height = 100, Hash = ''hashB'' \<rparr>"
  let ?sb = "\<lparr> Height = 84, Hash = ''hashS'' \<rparr>"
  have r: "fst (pluginStartVote ?e ''abc123'') = Inr ''84-2100''"
    by (simp add: pluginStartVote_def bestBlock_def block_def snapshot_def Let_def ex_env_def
          dcrdata_def FormatUint.simps digit10_def)
  have bb: "httpGetBlock ?e (dcrdata ?e @ ''api/block/best'') = Inr ?bb"
    by (simp add: ex_env_def dcrdata_def)
  have sb: "httpGetBlock ?e (dcrdata ?e @ ''api/block/''
           @ FormatUint (unat (Height ?bb) - unat (TicketMaturity ?e))) = Inr ?sb"
    by (simp add: ex_env_def dcrdata_def FormatUint.simps digit10_def)
  have h: "unat (Height ?sb) = unat (Height ?bb) - unat (TicketMaturity ?e)"
    by (simp add: ex_env_def)
  have tk: "httpGetTickets ?e (dcrdata ?e @ ''api/stake/pool/b/'' @ Hash ?sb @ ''/full?sort=true'')
           = Inr [''T1'', ''T2'']"
    by (simp add: ex_env_def dcrdata_def)
  have m: "unat (TicketMaturity ?e) = 16" by (simp add: ex_env_def)
  from pluginStartVote_session [OF r bb sb h tk] r show ?thesis
    by (simp add: m)
qed

text \<open>Claim C7 as stated fails on the end height: with best height \<open>2^32 - 1\<close> and maturity
  16 the start height is 4294967279 and the end height of the reply is 1999, not
  4294969295.\<close>

theorem pluginStartVote_end_height_counterexample:
  "TicketMaturity (ex_env 4294967295) = 16 \<and>
   httpGetBlock (ex_env 4294967295) (dcrdata (ex_env 4294967295) @ ''api/block/best'')
     = Inr \<lparr> Height = 4294967295, Hash = ''hashB'' \<rparr> \<and>
   FormatUint (4294967295 - 16) = ''4294967279'' \<and>
   FormatUint (4294967295 - 16 + 2016) = ''4294969295'' \<and>
   fst (pluginStartVote (ex_env 4294967295) ''abc123'') = Inr ''4294967279-1999''"
  by (simp add: pluginStartVote_def bestBlock_def block_def snapshot_def Let_def ex_env_def
        dcrdata_def FormatUint.simps digit10_def)

subsection \<open>pluginCastVotes\<close>

lemmas castVotes_defs =
  castVotes_def verifyVotes_def verifyInit_def verifyStep_def validateVote_def largestCommitmentAddress_def
  largestCommitment_def commitStep_def verifyMessage_def ledgerStep_def checkDup_def
  openLedger_def emptyReply_def Let_def enumerate_eq_zip

lemmas ex_defs =
  ex_env_def dcrdata_def ex_txs_def ex_tx1_def ex_tx2_def ex_tx3_def
  ex_vote1_def ex_vote2_def ex_vote2_tampered_def ex_vote3_def
  ex_disk_empty_def ex_disk_voted_def ex_disk_corrupt_def

text \<open>
  Claim C4 does not hold of the code. A batch with a vote on \<open>def456\<close> and a vote on
  \<open>abc123\<close>, whose ledger cannot be decoded: the call panics with \<^verbatim>\<open>"zzz "\<close> on the ledger of
  \<open>abc123\<close>, returns no result for any vote, and the vote on \<open>def456\<close>, which both checks
  accept, is never written.
\<close>

theorem castVotes_corrupt_ledger_panics:
  "fst (castVotes (ex_env 100) ''id'' [ex_vote3, ex_vote1] ex_disk_corrupt)
     = Panicked ''zzz invalid character x'' \<and>
   fst (snd (castVotes (ex_env 100) ''id'' [ex_vote3, ex_vote1] ex_disk_corrupt)) ''def456'' = [] \<and>
   dedupVotes (verifyVotes (ex_env 100) ''id'' [ex_vote3, ex_vote1] ex_disk_corrupt)
     = [(''def456T2'', \<lparr> vote = ex_vote3, index = 0 \<rparr>),
        (''abc123T1'', \<lparr> vote = ex_vote1, index = 1 \<rparr>)]"
  by (simp add: castVotes_defs ex_defs)

text \<open>The first loop.\<close>

lemma validateVote_events:
  "snd (validateVote e t k b sg) = [HttpGet (dcrdata e @ ''api/tx/'' @ k)]"
  by (simp add: validateVote_def largestCommitmentAddress_def Let_def)

lemma validKeys_snoc:
  "validKeys e (vs @ [v]) = validKeys e vs \<union> (if validVote e v then {keyOf v} else {})"
  by (simp add: validKeys_def)

lemma dupAt_append_old: "k < length vs \<Longrightarrow> dupAt e (vs @ [v]) k = dupAt e vs k"
  by (simp add: dupAt_def nth_append)

lemma dupAt_append_new: "dupAt e (vs @ [v]) (length vs) \<longleftrightarrow> keyOf v \<in> validKeys e vs"
  by (simp add: dupAt_def)


lemma verifyReply_append_old:
  "k < length vs \<Longrightarrow> verifyReply e fi (vs @ [v]) k = verifyReply e fi vs k"
  by (simp add: verifyReply_def dupAt_append_old nth_append)

lemma verifiedD:
  assumes "verified e fi n d vs s"
  shows "length (cbr s) = n"
    and "\<forall>k<length vs. cbr s ! k = verifyReply e fi vs k"
    and "\<forall>k. length vs \<le> k \<and> k < n \<longrightarrow> cbr s ! k = emptyReply"
    and "fst ` set (dedupVotes s) = validKeys e vs"
    and "\<forall>x\<in>set (dedupVotes s). fst x = keyOf (vote (snd x)) \<and> index (snd x) < length vs \<and>
          vote (snd x) = vs ! index (snd x) \<and> validVote e (vote (snd x)) \<and>
          \<not> dupAt e vs (index (snd x))"
    and "\<forall>k<length vs. \<not> dupAt e vs k \<and> validVote e (vs ! k) \<longrightarrow>
          (keyOf (vs ! k), \<lparr> vote = vs ! k, index = k \<rparr>) \<in> set (dedupVotes s)"
    and "distinct (map fst (dedupVotes s))"
    and "\<forall>k. ValidateVote k \<in> set (trace s) \<longleftrightarrow> k < length vs \<and> \<not> dupAt e vs k"
    and "\<forall>ev\<in>set (trace s). (\<exists>k. ev = ValidateVote k) \<or> (\<exists>u. ev = HttpGet u)"
    and "files s = Map.empty" and "ledgers s = d" and "panicked s = None"
  using assms unfolding verified_def by - ((elim conjE)?, assumption)+

lemma verifiedI:
  assumes "length (cbr s) = n"
    and "\<forall>k<length vs. cbr s ! k = verifyReply e fi vs k"
    and "\<forall>k. length vs \<le> k \<and> k < n \<longrightarrow> cbr s ! k = emptyReply"
    and "fst ` set (dedupVotes s) = validKeys e vs"
    and "\<forall>x\<in>set (dedupVotes s). fst x = keyOf (vote (snd x)) \<and> index (snd x) < length vs \<and>
          vote (snd x) = vs ! index (snd x) \<and> validVote e (vote (snd x)) \<and>
          \<not> dupAt e vs (index (snd x))"
    and "\<forall>k<length vs. \<not> dupAt e vs k \<and> validVote e (vs ! k) \<longrightarrow>
          (keyOf (vs ! k), \<lparr> vote = vs ! k, index = k \<rparr>) \<in> set (dedupVotes s)"
    and "distinct (map fst (dedupVotes s))"
    and "\<forall>k. ValidateVote k \<in> set (trace s) \<longleftrightarrow> k < length vs \<and> \<not> dupAt e vs k"
    and "\<forall>ev\<in>set (trace s). (\<exists>k. ev = ValidateVote k) \<or> (\<exists>u. ev = HttpGet u)"
    and "files s = Map.empty" and "ledgers s = d" and "panicked s = None"
  shows "verified e fi n d vs s"
  unfolding verified_def by (intro conjI assms)


lemma verified_snoc:
  assumes inv: "verified e fi n d vs s" and lt: "length vs < n"
    and cbr': "cbr s' = (cbr s)[length vs := verifyReply e fi (vs @ [v]) (length vs)]"
    and dv': "dedupVotes s' =
        (if \<not> dupAt e (vs @ [v]) (length vs) \<and> validVote e v
         then dedupVotes s @ [(keyOf v, \<lparr> vote = v, index = length vs \<rparr>)] else dedupVotes s)"
    and tr': "trace s' =
        (if dupAt e (vs @ [v]) (length vs) then trace s
         else trace s @ ValidateVote (length vs)
                # snd (validateVote e (Token v) (Ticket v) (VoteBit v) (Signature v)))"
    and rest: "files s' = files s" "ledgers s' = ledgers s" "panicked s' = panicked s"
  shows "verified e fi n d (vs @ [v]) s'"
proof -
  note D = verifiedD [OF inv]
  let ?k = "length vs"
  let ?dup = "dupAt e (vs @ [v]) ?k"
  have len: "length (cbr s) = n" by (rule D(1))
  have dupkey: "?dup \<longleftrightarrow> keyOf v \<in> fst ` set (dedupVotes s)"
    by (simp add: dupAt_append_new D(4))
  have g1: "length (cbr s') = n" by (simp add: cbr' len)
  have g2: "\<forall>k<length (vs @ [v]). cbr s' ! k = verifyReply e fi (vs @ [v]) k"
  proof (intro allI impI)
    fix k assume "k < length (vs @ [v])"
    then consider "k < ?k" | "k = ?k" by fastforce
    then show "cbr s' ! k = verifyReply e fi (vs @ [v]) k"
    proof cases
      case 1
      then have "cbr s' ! k = cbr s ! k" by (simp add: cbr')
      then show ?thesis using D(2) 1 by (simp add: verifyReply_append_old)
    next
      case 2
      then show ?thesis using lt len by (simp add: cbr')
    qed
  qed
  have g3: "\<forall>k. length (vs @ [v]) \<le> k \<and> k < n \<longrightarrow> cbr s' ! k = emptyReply"
    using D(3) by (simp add: cbr')
  have g4: "fst ` set (dedupVotes s') = validKeys e (vs @ [v])"
  proof (cases ?dup)
    case True
    then have "keyOf v \<in> validKeys e vs" by (simp add: dupAt_append_new)
    then have "validKeys e (vs @ [v]) = validKeys e vs" by (auto simp: validKeys_snoc)
    then show ?thesis using True D(4) by (simp add: dv')
  next
    case False
    then show ?thesis using D(4) by (auto simp: dv' validKeys_snoc)
  qed
  have old5: "\<forall>x\<in>set (dedupVotes s). fst x = keyOf (vote (snd x)) \<and>
          index (snd x) < length (vs @ [v]) \<and>
          vote (snd x) = (vs @ [v]) ! index (snd x) \<and> validVote e (vote (snd x)) \<and>
          \<not> dupAt e (vs @ [v]) (index (snd x))"
    using D(5) by (auto simp: nth_append dupAt_append_old)
  consider (same) "dedupVotes s' = dedupVotes s"
    | (new) "\<not> ?dup" "validVote e v"
        "dedupVotes s' = dedupVotes s @ [(keyOf v, \<lparr> vote = v, index = length vs \<rparr>)]"
    by (cases "\<not> ?dup \<and> validVote e v") (simp_all add: dv')
  note ds = this
  let ?P = "\<lambda>x. fst x = keyOf (vote (snd x)) \<and>
          index (snd x) < length (vs @ [v]) \<and>
          vote (snd x) = (vs @ [v]) ! index (snd x) \<and> validVote e (vote (snd x)) \<and>
          \<not> dupAt e (vs @ [v]) (index (snd x))"
  have g5: "\<forall>x\<in>set (dedupVotes s'). ?P x"
  proof (cases rule: ds)
    case same
    show ?thesis unfolding same by (rule old5)
  next
    case new
    then have eq: "set (dedupVotes s')
                = insert (keyOf v, \<lparr> vote = v, index = length vs \<rparr>) (set (dedupVotes s))"
      by simp
    have n: "?P (keyOf v, \<lparr> vote = v, index = length vs \<rparr>)"
      using new(1,2) by simp
    show ?thesis unfolding eq using n old5 by blast
  qed
  have g6: "\<forall>k<length (vs @ [v]). \<not> dupAt e (vs @ [v]) k \<and> validVote e ((vs @ [v]) ! k) \<longrightarrow>
          (keyOf ((vs @ [v]) ! k), \<lparr> vote = (vs @ [v]) ! k, index = k \<rparr>) \<in> set (dedupVotes s')"
  proof (intro allI impI)
    fix k assume k: "k < length (vs @ [v])"
      and h: "\<not> dupAt e (vs @ [v]) k \<and> validVote e ((vs @ [v]) ! k)"
    from k consider "k < ?k" | "k = ?k" by fastforce
    then show "(keyOf ((vs @ [v]) ! k), \<lparr> vote = (vs @ [v]) ! k, index = k \<rparr>) \<in> set (dedupVotes s')"
    proof cases
      case 1
      then have "(keyOf (vs ! k), \<lparr> vote = vs ! k, index = k \<rparr>) \<in> set (dedupVotes s)"
        using D(6) h by (simp add: nth_append dupAt_append_old)
      then show ?thesis using 1 by (simp add: dv' nth_append)
    next
      case 2
      then show ?thesis using h by (simp add: dv')
    qed
  qed
  have g7: "distinct (map fst (dedupVotes s'))"
  proof (cases rule: ds)
    case same
    show ?thesis unfolding same by (rule D(7))
  next
    case new
    then have "keyOf v \<notin> fst ` set (dedupVotes s)" using dupkey by simp
    then show ?thesis using D(7) by (simp add: new(3))
  qed
  have g8: "\<forall>k. ValidateVote k \<in> set (trace s') \<longleftrightarrow> k < length (vs @ [v]) \<and> \<not> dupAt e (vs @ [v]) k"
  proof
    fix k
    have old: "ValidateVote k \<in> set (trace s) \<longleftrightarrow> k < ?k \<and> \<not> dupAt e (vs @ [v]) k"
    proof (cases "k < ?k")
      case True
      then show ?thesis using spec [OF D(8), of k] by (simp add: dupAt_append_old)
    next
      case False
      then show ?thesis using spec [OF D(8), of k] by simp
    qed
    show "ValidateVote k \<in> set (trace s') \<longleftrightarrow> k < length (vs @ [v]) \<and> \<not> dupAt e (vs @ [v]) k"
      using old by (auto simp: tr' validateVote_events less_Suc_eq)
  qed
  have g9: "\<forall>ev\<in>set (trace s'). (\<exists>k. ev = ValidateVote k) \<or> (\<exists>u. ev = HttpGet u)"
    using D(9) by (auto simp: tr' validateVote_events)
  show ?thesis
    by (rule verifiedI [OF g1 g2 g3 g4 g5 g6 g7 g8 g9]) (simp_all add: rest D(10) D(11) D(12))
qed

lemma verifyStep_fields:
  fixes v :: CastVote
  assumes inv: "verified e fi n d vs s" and lt: "length vs < n"
  defines "s' \<equiv> verifyStep e fi s (length vs, v)"
  shows "cbr s' = (cbr s)[length vs := verifyReply e fi (vs @ [v]) (length vs)]"
    and "dedupVotes s' =
        (if \<not> dupAt e (vs @ [v]) (length vs) \<and> validVote e v
         then dedupVotes s @ [(keyOf v, \<lparr> vote = v, index = length vs \<rparr>)] else dedupVotes s)"
    and "trace s' =
        (if dupAt e (vs @ [v]) (length vs) then trace s
         else trace s @ ValidateVote (length vs)
                # snd (validateVote e (Token v) (Ticket v) (VoteBit v) (Signature v)))"
    and "files s' = files s" "ledgers s' = ledgers s" "panicked s' = panicked s"
proof -
  note D = verifiedD [OF inv]
  let ?r = "fst (validateVote e (Token v) (Ticket v) (VoteBit v) (Signature v))"
  have e0: "cbr s ! length vs = emptyReply" using D(3) lt by simp
  have len: "length vs < length (cbr s)" using D(1) lt by simp
  have m: "map_of (dedupVotes s) (Token v @ Ticket v) = None \<longleftrightarrow> \<not> dupAt e (vs @ [v]) (length vs)"
    using D(4) by (simp add: dupAt_append_new map_of_eq_None_iff keyOf_def)
  consider (dup) "dupAt e (vs @ [v]) (length vs)"
    | (bad) err where "\<not> dupAt e (vs @ [v]) (length vs)" "?r = Some err"
    | (ok) "\<not> dupAt e (vs @ [v]) (length vs)" "?r = None"
    by (cases ?r) auto
  then have "cbr s' = (cbr s)[length vs := verifyReply e fi (vs @ [v]) (length vs)]
     \<and> dedupVotes s' =
        (if \<not> dupAt e (vs @ [v]) (length vs) \<and> validVote e v
         then dedupVotes s @ [(keyOf v, \<lparr> vote = v, index = length vs \<rparr>)] else dedupVotes s)
     \<and> trace s' =
        (if dupAt e (vs @ [v]) (length vs) then trace s
         else trace s @ ValidateVote (length vs)
                # snd (validateVote e (Token v) (Ticket v) (VoteBit v) (Signature v)))
     \<and> files s' = files s \<and> ledgers s' = ledgers s \<and> panicked s' = panicked s"
  proof cases
    case dup
    then have mm: "map_of (dedupVotes s) (Token v @ Ticket v) \<noteq> None" using m by simp
    have "s' = s\<lparr> cbr := (cbr s)[length vs := (cbr s ! length vs)\<lparr> Error :=
                  ''duplicate vote token '' @ Token v @ '' ticket '' @ Ticket v \<rparr>] \<rparr>"
      unfolding s'_def verifyStep_def using mm by (simp add: Let_def)
    then show ?thesis using dup by (simp add: e0 emptyReply_def verifyReply_def)
  next
    case bad
    then have mm: "map_of (dedupVotes s) (Token v @ Ticket v) = None" using m by simp
    have "s' = s\<lparr> cbr := (cbr s)[length vs :=
                        \<lparr> ClientSignature = Signature v, ReplySignature = [], Error = err \<rparr>],
                  trace := trace s @ ValidateVote (length vs)
                     # snd (validateVote e (Token v) (Ticket v) (VoteBit v) (Signature v)) \<rparr>"
      unfolding s'_def verifyStep_def using mm bad(2) len
      by (simp add: Let_def e0 emptyReply_def)
    then show ?thesis using bad by (simp add: verifyReply_def validVote_def)
  next
    case ok
    then have mm: "map_of (dedupVotes s) (Token v @ Ticket v) = None" using m by simp
    have "s' = s\<lparr> cbr := (cbr s)[length vs :=
                        \<lparr> ClientSignature = Signature v,
                          ReplySignature = hexEncodeToString e (SignMessage e fi (Signature v)),
                          Error = [] \<rparr>],
                  trace := trace s @ ValidateVote (length vs)
                     # snd (validateVote e (Token v) (Ticket v) (VoteBit v) (Signature v)),
                  dedupVotes := dedupVotes s @ [(keyOf v, \<lparr> vote = v, index = length vs \<rparr>)] \<rparr>"
      unfolding s'_def verifyStep_def using mm ok(2) len
      by (simp add: Let_def e0 emptyReply_def keyOf_def)
    then show ?thesis using ok by (simp add: verifyReply_def validVote_def)
  qed
  then show "cbr s' = (cbr s)[length vs := verifyReply e fi (vs @ [v]) (length vs)]"
    and "dedupVotes s' =
        (if \<not> dupAt e (vs @ [v]) (length vs) \<and> validVote e v
         then dedupVotes s @ [(keyOf v, \<lparr> vote = v, index = length vs \<rparr>)] else dedupVotes s)"
    and "trace s' =
        (if dupAt e (vs @ [v]) (length vs) then trace s
         else trace s @ ValidateVote (length vs)
                # snd (validateVote e (Token v) (Ticket v) (VoteBit v) (Signature v)))"
    and "files s' = files s" "ledgers s' = ledgers s" "panicked s' = panicked s"
    by blast+
qed

lemma verified_init: "verified e fi n d [] (verifyInit n d)"
  by (rule verifiedI) (simp_all add: validKeys_def verifyInit_def)

lemma verified_fold_step:
  assumes inv: "verified e fi n d vs s" and lt: "length vs < n"
  shows "verified e fi n d (vs @ [v]) (verifyStep e fi s (length vs, v))"
  by (rule verified_snoc [OF inv lt verifyStep_fields(1) [OF inv lt]
          verifyStep_fields(2) [OF inv lt] verifyStep_fields(3) [OF inv lt]
          verifyStep_fields(4) [OF inv lt] verifyStep_fields(5) [OF inv lt]
          verifyStep_fields(6) [OF inv lt]])

lemma enumerate_snoc: "enumerate 0 (vs @ [v]) = enumerate 0 vs @ [(length vs, v)]"
  by (simp add: enumerate_append_eq)

lemma verified_fold:
  "length vs \<le> n \<Longrightarrow>
   verified e fi n d vs (foldl (verifyStep e fi) (verifyInit n d) (enumerate 0 vs))"
proof (induction vs rule: rev_induct)
  case Nil
  show ?case using verified_init [of e fi n d] by simp
next
  case (snoc v vs)
  from snoc.prems have lt: "length vs < n" by simp
  from snoc.IH lt have inv: "verified e fi n d vs
       (foldl (verifyStep e fi) (verifyInit n d) (enumerate 0 vs))" by simp
  show ?case
    unfolding enumerate_snoc foldl_append foldl.simps
    by (rule verified_fold_step [OF inv lt])
qed

lemma verifyVotes_verified: "verified e fi (length votes) d votes (verifyVotes e fi votes d)"
  unfolding verifyVotes_def by (rule verified_fold) simp

text \<open>Reading a ledger back.\<close>

lemma entries_append [simp]: "entries (rs @ rs') = entries rs @ entries rs'"
  by (induction rs rule: entries.induct) simp_all

lemma entries_map_Rec [simp]: "entries (map Rec vs) = vs"
  by (induction vs) simp_all

lemma noCorrupt_append [simp]: "noCorrupt (rs @ rs') \<longleftrightarrow> noCorrupt rs \<and> noCorrupt rs'"
  by (induction rs rule: noCorrupt.induct) simp_all

lemma noCorrupt_map_Rec [simp]: "noCorrupt (map Rec vs)"
  by (induction vs) simp_all

lemma decodeAll_ok: "noCorrupt rs \<Longrightarrow> decodeAll rs = Inr (entries rs)"
  by (induction rs rule: decodeAll.induct) simp_all

lemma decodeAll_corrupt: "\<not> noCorrupt rs \<Longrightarrow> isl (decodeAll rs)"
  by (induction rs rule: decodeAll.induct) (auto split: sum.splits)

lemma decodeAll_Inr: "decodeAll rs = Inr cvs \<longleftrightarrow> noCorrupt rs \<and> cvs = entries rs"
proof (cases "noCorrupt rs")
  case True
  then show ?thesis by (auto simp: decodeAll_ok)
next
  case False
  then have "isl (decodeAll rs)" by (rule decodeAll_corrupt)
  then show ?thesis using False by (cases "decodeAll rs") simp_all
qed

lemma recreateKeys_Some:
  "recreateKeys cvs c = Some c' \<longleftrightarrow>
     distinct (map keyOf cvs) \<and> keyOf ` set cvs \<inter> c = {} \<and> c' = c \<union> keyOf ` set cvs"
  by (induction cvs arbitrary: c) (auto simp: Let_def keyOf_def)

lemma recreateKeys_None:
  "recreateKeys cvs c = None \<longleftrightarrow> \<not> (distinct (map keyOf cvs) \<and> keyOf ` set cvs \<inter> c = {})"
proof (cases "recreateKeys cvs c")
  case None
  then show ?thesis using recreateKeys_Some [of cvs c "c \<union> keyOf ` set cvs"] by auto
next
  case (Some c')
  then show ?thesis using recreateKeys_Some [of cvs c c'] by auto
qed

lemma openLedger_Inr:
  "openLedger e tok rs = Inr c \<longleftrightarrow>
     OpenFile e tok = None \<and> noCorrupt rs \<and> distinct (map keyOf (entries rs)) \<and>
     c = keyOf ` set (entries rs)"
proof (cases "OpenFile e tok")
  case (Some err)
  then show ?thesis by (simp add: openLedger_def)
next
  case None
  show ?thesis
  proof (cases "noCorrupt rs")
    case False
    then obtain msg where "decodeAll rs = Inl msg"
      using decodeAll_corrupt [of rs] by (cases "decodeAll rs") simp_all
    then show ?thesis using None False by (simp add: openLedger_def)
  next
    case True
    then have dec: "decodeAll rs = Inr (entries rs)" by (rule decodeAll_ok)
    show ?thesis
    proof (cases "distinct (map keyOf (entries rs))")
      case d: True
      then have "recreateKeys (entries rs) {} = Some (keyOf ` set (entries rs))"
        by (simp add: recreateKeys_Some)
      then show ?thesis using None True d dec by (auto simp: openLedger_def)
    next
      case d: False
      then have "recreateKeys (entries rs) {} = None" by (simp add: recreateKeys_None)
      then show ?thesis using None d dec by (simp add: openLedger_def)
    qed
  qed
qed

lemma ledgeredD:
  assumes "ledgered e d0 s0 pre s"
  shows "dedupVotes s = dedupVotes s0"
    and "length (cbr s) = length (cbr s0)"
    and "\<forall>tok. ledgers s tok = d0 tok @ appended d0 tok pre"
    and "\<forall>k<length (cbr s0). cbr s ! k =
         (if \<exists>x\<in>set pre. index (snd x) = k \<and> inLedger d0 (vote (snd x))
          then (cbr s0 ! k)\<lparr> Error := alreadyVoted \<rparr> else cbr s0 ! k)"
    and "\<forall>tok c. files s tok = Some c \<longrightarrow> openLedger e tok (d0 tok) = Inr c"
    and "\<forall>x\<in>set pre. files s (Token (vote (snd x))) \<noteq> None"
    and "\<forall>ev\<in>set (trace s). ev \<in> set (trace s0) \<or> (\<exists>tok. ev = OpenLedger tok) \<or>
         (\<exists>x\<in>set pre. ev = AppendLedger (Token (vote (snd x))) (vote (snd x)))"
  using assms unfolding ledgered_def by - ((elim conjE)?, assumption)+

lemma ledgeredI:
  assumes "dedupVotes s = dedupVotes s0"
    and "length (cbr s) = length (cbr s0)"
    and "\<forall>tok. ledgers s tok = d0 tok @ appended d0 tok pre"
    and "\<forall>k<length (cbr s0). cbr s ! k =
         (if \<exists>x\<in>set pre. index (snd x) = k \<and> inLedger d0 (vote (snd x))
          then (cbr s0 ! k)\<lparr> Error := alreadyVoted \<rparr> else cbr s0 ! k)"
    and "\<forall>tok c. files s tok = Some c \<longrightarrow> openLedger e tok (d0 tok) = Inr c"
    and "\<forall>x\<in>set pre. files s (Token (vote (snd x))) \<noteq> None"
    and "\<forall>ev\<in>set (trace s). ev \<in> set (trace s0) \<or> (\<exists>tok. ev = OpenLedger tok) \<or>
         (\<exists>x\<in>set pre. ev = AppendLedger (Token (vote (snd x))) (vote (snd x)))"
  shows "ledgered e d0 s0 pre s"
  unfolding ledgered_def by (intro conjI assms)

lemma appended_snoc:
  "appended d0 tok (pre @ [x]) =
     appended d0 tok pre @
       (if Token (vote (snd x)) = tok \<and> \<not> inLedger d0 (vote (snd x)) then [Rec (vote (snd x))] else [])"
  by (simp add: appended_def)

lemma ledgered_same:
  assumes inv: "ledgered e d0 s0 pre s"
    and dv: "dedupVotes s' = dedupVotes s" and cb: "cbr s' = cbr s" and ld: "ledgers s' = ledgers s"
    and fl: "files s' = files s \<or>
             (\<exists>tok c. files s' = (files s)(tok \<mapsto> c) \<and> openLedger e tok (d0 tok) = Inr c)"
    and tr: "set (trace s') \<subseteq> set (trace s) \<union> range OpenLedger"
  shows "ledgered e d0 s0 pre s'"
proof -
  note D = ledgeredD [OF inv]
  have g5: "\<forall>tok c. files s' tok = Some c \<longrightarrow> openLedger e tok (d0 tok) = Inr c"
  proof (intro allI impI)
    fix tok c assume a: "files s' tok = Some c"
    from fl show "openLedger e tok (d0 tok) = Inr c"
    proof
      assume "files s' = files s"
      then show ?thesis using a D(5) by simp
    next
      assume "\<exists>tok c. files s' = (files s)(tok \<mapsto> c) \<and> openLedger e tok (d0 tok) = Inr c"
      then obtain t c' where f: "files s' = (files s)(t \<mapsto> c')"
        and o: "openLedger e t (d0 t) = Inr c'" by blast
      show ?thesis
      proof (cases "tok = t")
        case True
        then show ?thesis using a f o by simp
      next
        case False
        then have "files s tok = Some c" using a f by simp
        then show ?thesis using D(5) by blast
      qed
    qed
  qed
  have g6: "\<forall>x\<in>set pre. files s' (Token (vote (snd x))) \<noteq> None"
  proof
    fix x assume "x \<in> set pre"
    then have "files s (Token (vote (snd x))) \<noteq> None" using D(6) by blast
    then show "files s' (Token (vote (snd x))) \<noteq> None" using fl by auto
  qed
  have g7: "\<forall>ev\<in>set (trace s'). ev \<in> set (trace s0) \<or> (\<exists>tok. ev = OpenLedger tok) \<or>
         (\<exists>x\<in>set pre. ev = AppendLedger (Token (vote (snd x))) (vote (snd x)))"
  proof
    fix ev assume "ev \<in> set (trace s')"
    then have "ev \<in> set (trace s) \<or> ev \<in> range OpenLedger" using tr by blast
    then show "ev \<in> set (trace s0) \<or> (\<exists>tok. ev = OpenLedger tok) \<or>
         (\<exists>x\<in>set pre. ev = AppendLedger (Token (vote (snd x))) (vote (snd x)))"
      using D(7) by blast
  qed
  have g1: "dedupVotes s' = dedupVotes s0" using dv D(1) by simp
  have g2: "length (cbr s') = length (cbr s0)" using cb D(2) by simp
  have g3: "\<forall>tok. ledgers s' tok = d0 tok @ appended d0 tok pre"
    unfolding ld by (rule D(3))
  have g4: "\<forall>k<length (cbr s0). cbr s' ! k =
         (if \<exists>x\<in>set pre. index (snd x) = k \<and> inLedger d0 (vote (snd x))
          then (cbr s0 ! k)\<lparr> Error := alreadyVoted \<rparr> else cbr s0 ! k)"
    unfolding cb by (rule D(4))
  show ?thesis
    by (rule ledgeredI [OF g1 g2 g3 g4 g5 g6 g7])
qed

lemma ledgered_snoc:
  fixes x :: "string \<times> dedupVote"
  defines "v \<equiv> vote (snd x)"
  defines "i \<equiv> index (snd x)"
  assumes inv: "ledgered e d0 s0 pre s"
    and op: "files s (Token v) \<noteq> None"
    and idx: "i < length (cbr s0)"
    and dv: "dedupVotes s' = dedupVotes s" and fl: "files s' = files s"
    and cb: "cbr s' = (if inLedger d0 v
                       then (cbr s)[i := (cbr s ! i)\<lparr> Error := alreadyVoted \<rparr>] else cbr s)"
    and ld: "ledgers s' = (if inLedger d0 v then ledgers s
                           else (ledgers s)(Token v := ledgers s (Token v) @ [Rec v]))"
    and tr: "trace s' = (if inLedger d0 v then trace s
                         else trace s @ [AppendLedger (Token v) v])"
  shows "ledgered e d0 s0 (pre @ [x]) s'"
proof -
  note D = ledgeredD [OF inv]
  have g1: "dedupVotes s' = dedupVotes s0" using dv D(1) by simp
  have g2: "length (cbr s') = length (cbr s0)" using cb D(2) by simp
  have g3: "\<forall>tok. ledgers s' tok = d0 tok @ appended d0 tok (pre @ [x])"
  proof
    fix tok
    have old: "\<And>t. ledgers s t = d0 t @ appended d0 t pre" using D(3) by blast
    show "ledgers s' tok = d0 tok @ appended d0 tok (pre @ [x])"
      by (simp add: ld appended_snoc v_def old)
  qed
  have g4: "\<forall>k<length (cbr s0). cbr s' ! k =
         (if \<exists>y\<in>set (pre @ [x]). index (snd y) = k \<and> inLedger d0 (vote (snd y))
          then (cbr s0 ! k)\<lparr> Error := alreadyVoted \<rparr> else cbr s0 ! k)"
  proof (intro allI impI)
    fix k assume k: "k < length (cbr s0)"
    let ?old = "\<exists>y\<in>set pre. index (snd y) = k \<and> inLedger d0 (vote (snd y))"
    have old: "cbr s ! k = (if ?old then (cbr s0 ! k)\<lparr> Error := alreadyVoted \<rparr> else cbr s0 ! k)"
      using D(4) k by blast
    have ex: "(\<exists>y\<in>set (pre @ [x]). index (snd y) = k \<and> inLedger d0 (vote (snd y)))
                \<longleftrightarrow> ?old \<or> (i = k \<and> inLedger d0 v)"
      by (auto simp: v_def i_def)
    have kl: "k < length (cbr s)" using k D(2) by simp
    show "cbr s' ! k =
         (if \<exists>y\<in>set (pre @ [x]). index (snd y) = k \<and> inLedger d0 (vote (snd y))
          then (cbr s0 ! k)\<lparr> Error := alreadyVoted \<rparr> else cbr s0 ! k)"
      unfolding ex
    proof (cases "i = k \<and> inLedger d0 v")
      case True
      then have "cbr s' ! k = (cbr s ! k)\<lparr> Error := alreadyVoted \<rparr>"
        using kl by (simp add: cb)
      also have "\<dots> = (cbr s0 ! k)\<lparr> Error := alreadyVoted \<rparr>"
        by (simp add: old)
      finally show "cbr s' ! k = (if ?old \<or> (i = k \<and> inLedger d0 v)
          then (cbr s0 ! k)\<lparr> Error := alreadyVoted \<rparr> else cbr s0 ! k)"
        using True by simp
    next
      case False
      then have "cbr s' ! k = cbr s ! k" by (auto simp: cb)
      then show "cbr s' ! k = (if ?old \<or> (i = k \<and> inLedger d0 v)
          then (cbr s0 ! k)\<lparr> Error := alreadyVoted \<rparr> else cbr s0 ! k)"
        using False old by auto
    qed
  qed
  have g5: "\<forall>tok c. files s' tok = Some c \<longrightarrow> openLedger e tok (d0 tok) = Inr c"
    unfolding fl by (rule D(5))
  have g6: "\<forall>y\<in>set (pre @ [x]). files s' (Token (vote (snd y))) \<noteq> None"
  proof
    fix y assume "y \<in> set (pre @ [x])"
    then consider "y \<in> set pre" | "y = x" by auto
    then show "files s' (Token (vote (snd y))) \<noteq> None"
    proof cases
      case 1 then show ?thesis using D(6) fl by auto
    next
      case 2 then show ?thesis using op fl by (simp add: v_def)
    qed
  qed
  have g7: "\<forall>ev\<in>set (trace s'). ev \<in> set (trace s0) \<or> (\<exists>tok. ev = OpenLedger tok) \<or>
         (\<exists>y\<in>set (pre @ [x]). ev = AppendLedger (Token (vote (snd y))) (vote (snd y)))"
  proof
    fix ev assume "ev \<in> set (trace s')"
    then consider "ev \<in> set (trace s)" | "ev = AppendLedger (Token v) v"
      by (auto simp: tr split: if_splits)
    then show "ev \<in> set (trace s0) \<or> (\<exists>tok. ev = OpenLedger tok) \<or>
         (\<exists>y\<in>set (pre @ [x]). ev = AppendLedger (Token (vote (snd y))) (vote (snd y)))"
    proof cases
      case 1
      then have "ev \<in> set (trace s0) \<or> (\<exists>tok. ev = OpenLedger tok) \<or>
         (\<exists>y\<in>set pre. ev = AppendLedger (Token (vote (snd y))) (vote (snd y)))"
        using D(7) by blast
      then show ?thesis by auto
    next
      case 2
      then show ?thesis by (auto simp: v_def)
    qed
  qed
  show ?thesis
    by (rule ledgeredI [OF g1 g2 g3 g4 g5 g6 g7])
qed

lemma appended_none:
  "\<forall>x\<in>set pre. Token (vote (snd x)) \<noteq> tok \<Longrightarrow> appended d0 tok pre = []"
  by (auto simp: appended_def filter_empty_conv)

lemma checkDup_ledgered:
  fixes x :: "string \<times> dedupVote"
  assumes inv: "ledgered e d0 s0 pre s" and np: "panicked s = None"
    and fc: "files s (Token (vote (snd x))) = Some c"
    and look: "map_of (dedupVotes s0) (keyOf (vote (snd x))) = Some (snd x)"
    and idx: "index (snd x) < length (cbr s0)"
  shows "(panicked (checkDup e s (snd x) c) \<noteq> None \<and> ledgered e d0 s0 pre (checkDup e s (snd x) c)) \<or>
         (panicked (checkDup e s (snd x) c) = None \<and>
            ledgered e d0 s0 (pre @ [x]) (checkDup e s (snd x) c))"
proof -
  note D = ledgeredD [OF inv]
  let ?v = "vote (snd x)"
  let ?tok = "Token ?v"
  let ?s' = "checkDup e s (snd x) c"
  have "openLedger e ?tok (d0 ?tok) = Inr c" using D(5) fc by blast
  then have c: "c = keyOf ` set (entries (d0 ?tok))" by (simp add: openLedger_Inr)
  have key: "Token ?v @ Ticket ?v \<in> c \<longleftrightarrow> inLedger d0 ?v"
    by (simp add: c inLedger_def keyOf_def)
  have lk: "map_of (dedupVotes s) (Token ?v @ Ticket ?v) = Some (snd x)"
    using look D(1) by (simp add: keyOf_def)
  have op: "files s ?tok \<noteq> None" using fc by simp
  show ?thesis
  proof (cases "inLedger d0 ?v")
    case True
    have s': "?s' = s\<lparr> cbr := (cbr s)[index (snd x) :=
                 (cbr s ! index (snd x))\<lparr> Error := alreadyVoted \<rparr>] \<rparr>"
      using True key lk by (simp add: checkDup_def Let_def alreadyVoted_def)
    have "ledgered e d0 s0 (pre @ [x]) ?s'"
      by (rule ledgered_snoc [OF inv op idx]) (simp_all add: s' True)
    moreover have "panicked ?s' = None" using np by (simp add: s')
    ultimately show ?thesis by blast
  next
    case False
    show ?thesis
    proof (cases "Seek e ?tok")
      case (Some err)
      have s': "?s' = s\<lparr> panicked := Some (''y '' @ err) \<rparr>"
        using False key Some by (simp add: checkDup_def Let_def)
      have "ledgered e d0 s0 pre ?s'"
        by (rule ledgered_same [OF inv]) (simp_all add: s')
      moreover have "panicked ?s' \<noteq> None" by (simp add: s')
      ultimately show ?thesis by blast
    next
      case None
      show ?thesis
      proof (cases "Encode e ?tok ?v")
        case (Some err)
        have s': "?s' = s\<lparr> panicked := Some (''z '' @ err) \<rparr>"
          using False key None Some by (simp add: checkDup_def Let_def)
        have "ledgered e d0 s0 pre ?s'"
          by (rule ledgered_same [OF inv]) (simp_all add: s')
        moreover have "panicked ?s' \<noteq> None" by (simp add: s')
        ultimately show ?thesis by blast
      next
        case enc: None
        have s': "?s' = s\<lparr> ledgers := (ledgers s)(?tok := ledgers s ?tok @ [Rec ?v]),
                             trace := trace s @ [AppendLedger ?tok ?v] \<rparr>"
          using False key None enc by (simp add: checkDup_def Let_def)
        have "ledgered e d0 s0 (pre @ [x]) ?s'"
          by (rule ledgered_snoc [OF inv op idx]) (simp_all add: s' False)
        moreover have "panicked ?s' = None" using np by (simp add: s')
        ultimately show ?thesis by blast
      qed
    qed
  qed
qed

lemma ledgerStep_ledgered:
  fixes x :: "string \<times> dedupVote"
  assumes inv: "ledgered e d0 s0 pre s" and np: "panicked s = None"
    and look: "map_of (dedupVotes s0) (keyOf (vote (snd x))) = Some (snd x)"
    and idx: "index (snd x) < length (cbr s0)"
  shows "(panicked (ledgerStep e s x) \<noteq> None \<and> ledgered e d0 s0 pre (ledgerStep e s x)) \<or>
         (panicked (ledgerStep e s x) = None \<and> ledgered e d0 s0 (pre @ [x]) (ledgerStep e s x))"
proof -
  note D = ledgeredD [OF inv]
  let ?v = "vote (snd x)"
  let ?tok = "Token ?v"
  show ?thesis
  proof (cases "files s ?tok")
    case (Some c)
    then have "ledgerStep e s x = checkDup e s (snd x) c"
      using np by (simp add: ledgerStep_def Let_def)
    then show ?thesis using checkDup_ledgered [OF inv np Some look idx] by simp
  next
    case None
    let ?s1 = "s\<lparr> trace := trace s @ [OpenLedger ?tok] \<rparr>"
    have "\<forall>y\<in>set pre. Token (vote (snd y)) \<noteq> ?tok"
    proof
      fix y assume "y \<in> set pre"
      then have "files s (Token (vote (snd y))) \<noteq> None" using D(6) by blast
      then show "Token (vote (snd y)) \<noteq> ?tok" using None by auto
    qed
    then have "appended d0 ?tok pre = []" by (rule appended_none)
    then have led: "ledgers s ?tok = d0 ?tok" using spec [OF D(3), of ?tok] by simp
    show ?thesis
    proof (cases "openLedger e ?tok (d0 ?tok)")
      case (Inl msg)
      then have s': "ledgerStep e s x = ?s1\<lparr> panicked := Some msg \<rparr>"
        using np None led by (simp add: ledgerStep_def Let_def)
      have "ledgered e d0 s0 pre (?s1\<lparr> panicked := Some msg \<rparr>)"
        by (rule ledgered_same [OF inv]) auto
      then show ?thesis by (simp add: s')
    next
      case (Inr c)
      let ?s2 = "?s1\<lparr> files := (files ?s1)(?tok \<mapsto> c) \<rparr>"
      have s': "ledgerStep e s x = checkDup e ?s2 (snd x) c"
        using np None led Inr by (simp add: ledgerStep_def Let_def)
      have inv2: "ledgered e d0 s0 pre ?s2"
        by (rule ledgered_same [OF inv]) (use Inr in auto)
      have np2: "panicked ?s2 = None" using np by simp
      have fc2: "files ?s2 ?tok = Some c" by simp
      show ?thesis unfolding s' by (rule checkDup_ledgered [OF inv2 np2 fc2 look idx])
    qed
  qed
qed

lemma ledgerStep_panicked: "panicked s \<noteq> None \<Longrightarrow> ledgerStep e s x = s"
  by (simp add: ledgerStep_def Let_def)

lemma ledgerStep_fold_panicked: "panicked s \<noteq> None \<Longrightarrow> foldl (ledgerStep e) s xs = s"
  by (induction xs) (simp_all add: ledgerStep_panicked)

lemma ledgered_fold:
  assumes "ledgered e d0 s0 pre s"
    and "\<forall>x\<in>set xs. map_of (dedupVotes s0) (keyOf (vote (snd x))) = Some (snd x) \<and>
           index (snd x) < length (cbr s0)"
  shows "\<exists>pre' rest. pre @ xs = pre' @ rest \<and>
           ledgered e d0 s0 pre' (foldl (ledgerStep e) s xs) \<and>
           (panicked (foldl (ledgerStep e) s xs) = None \<longrightarrow> rest = [])"
  using assms
proof (induction xs arbitrary: pre s)
  case Nil
  then show ?case by auto
next
  case (Cons x xs)
  show ?case
  proof (cases "panicked s")
    case (Some msg)
    then have "panicked s \<noteq> None" by simp
    then have "foldl (ledgerStep e) s (x # xs) = s"
      by (rule ledgerStep_fold_panicked)
    then show ?thesis using Cons.prems(1) Some
      by (intro exI [of _ pre] exI [of _ "x # xs"]) simp
  next
    case None
    have look: "map_of (dedupVotes s0) (keyOf (vote (snd x))) = Some (snd x)"
      and idx: "index (snd x) < length (cbr s0)"
      using Cons.prems(2) by auto
    have rest: "\<forall>x\<in>set xs. map_of (dedupVotes s0) (keyOf (vote (snd x))) = Some (snd x) \<and>
           index (snd x) < length (cbr s0)"
      using Cons.prems(2) by auto
    from ledgerStep_ledgered [OF Cons.prems(1) None look idx]
    show ?thesis
    proof
      assume a: "panicked (ledgerStep e s x) \<noteq> None \<and> ledgered e d0 s0 pre (ledgerStep e s x)"
      then have "foldl (ledgerStep e) s (x # xs) = ledgerStep e s x"
        by (simp add: ledgerStep_fold_panicked)
      then show ?thesis using a
        by (intro exI [of _ pre] exI [of _ "x # xs"]) simp
    next
      assume a: "panicked (ledgerStep e s x) = None \<and>
                 ledgered e d0 s0 (pre @ [x]) (ledgerStep e s x)"
      then have "ledgered e d0 s0 (pre @ [x]) (ledgerStep e s x)" by simp
      from Cons.IH [OF this rest]
      show ?thesis by simp
    qed
  qed
qed

lemma rangeOK_set: "rangeOK e \<Longrightarrow> set (rangeMap e xs) = set xs"
  unfolding rangeOK_def by (metis set_mset_mset)

lemma rangeOK_distinct:
  assumes "rangeOK e" "distinct (map fst xs)"
  shows "distinct (map fst (rangeMap e xs))"
proof -
  have "mset (map fst (rangeMap e xs)) = mset (map fst xs)"
    using assms(1) unfolding rangeOK_def by (metis mset_map)
  then show ?thesis using assms(2) by (metis mset_eq_imp_distinct_iff)
qed

lemma ledgered_start:
  assumes "files s = Map.empty" "ledgers s = d"
  shows "ledgered e d s [] s"
  by (rule ledgeredI) (simp_all add: assms appended_def)

lemma verified_entry:
  assumes v: "verified e fi (length vs) d vs s" and x: "x \<in> set (dedupVotes s)"
  shows "map_of (dedupVotes s) (keyOf (vote (snd x))) = Some (snd x)"
    and "index (snd x) < length (cbr s)"
    and "index (snd x) < length vs"
    and "vote (snd x) = vs ! index (snd x)"
    and "validVote e (vote (snd x))"
    and "\<not> dupAt e vs (index (snd x))"
    and "fst x = keyOf (vote (snd x))"
proof -
  note D = verifiedD [OF v]
  from D(5) x have p: "fst x = keyOf (vote (snd x)) \<and> index (snd x) < length vs \<and>
          vote (snd x) = vs ! index (snd x) \<and> validVote e (vote (snd x)) \<and>
          \<not> dupAt e vs (index (snd x))" by blast
  then show "index (snd x) < length vs" "vote (snd x) = vs ! index (snd x)"
    "validVote e (vote (snd x))" "\<not> dupAt e vs (index (snd x))"
    "fst x = keyOf (vote (snd x))" by blast+
  have "(fst x, snd x) \<in> set (dedupVotes s)" using x by simp
  then have "map_of (dedupVotes s) (fst x) = Some (snd x)"
    using D(7) by (rule map_of_is_SomeI [rotated])
  then show "map_of (dedupVotes s) (keyOf (vote (snd x))) = Some (snd x)" using p by simp
  from p show "index (snd x) < length (cbr s)" using D(1) by simp
qed

lemma castVotes_full:
  assumes "lockLock e = None" "\<not> shutdown e" "gitCheckout e = None" "gitPull e = None"
  shows "castVotes e fi votes d =
     (case panicked (foldl (ledgerStep e) (lockedState (verifyVotes e fi votes d))
                       (rangeMap e (dedupVotes (verifyVotes e fi votes d)))) of
        Some msg \<Rightarrow> Panicked msg
      | None \<Rightarrow> Returned (cbr (foldl (ledgerStep e) (lockedState (verifyVotes e fi votes d))
                       (rangeMap e (dedupVotes (verifyVotes e fi votes d))))),
      ledgers (foldl (ledgerStep e) (lockedState (verifyVotes e fi votes d))
                       (rangeMap e (dedupVotes (verifyVotes e fi votes d)))),
      trace (foldl (ledgerStep e) (lockedState (verifyVotes e fi votes d))
                       (rangeMap e (dedupVotes (verifyVotes e fi votes d)))) @ [Unlock])"
  using assms by (simp add: castVotes_def lockedState_def Let_def split: option.splits)

lemma castVotes_not_full:
  assumes "\<not> (lockLock e = None \<and> \<not> shutdown e \<and> gitCheckout e = None \<and> gitPull e = None)"
  shows "(\<exists>msg. fst (castVotes e fi votes d) = Failed msg) \<and>
         fst (snd (castVotes e fi votes d)) = d \<and>
         set (snd (snd (castVotes e fi votes d)))
            \<subseteq> set (trace (verifyVotes e fi votes d)) \<union> {Lock, Unlock, GitCheckout, GitPull}"
  using assms by (auto simp: castVotes_def Let_def split: option.splits)

lemma lockedState_fields [simp]:
  "cbr (lockedState s) = cbr s" "dedupVotes (lockedState s) = dedupVotes s"
  "files (lockedState s) = files s" "ledgers (lockedState s) = ledgers s"
  "panicked (lockedState s) = panicked s"
  "trace (lockedState s) = trace s @ [Lock, GitCheckout, GitPull]"
  by (simp_all add: lockedState_def)

lemma ledger_loop:
  fixes e :: "('pk, 'fi) env" and fi :: 'fi and votes :: "CastVote list" and d :: disk
  assumes ok: "rangeOK e"
  defines "s1 \<equiv> verifyVotes e fi votes d"
  defines "s2 \<equiv> foldl (ledgerStep e) (lockedState s1) (rangeMap e (dedupVotes s1))"
  shows "\<exists>pre rest. rangeMap e (dedupVotes s1) = pre @ rest \<and>
           ledgered e d (lockedState s1) pre s2 \<and> (panicked s2 = None \<longrightarrow> rest = [])"
proof -
  have v: "verified e fi (length votes) d votes s1"
    unfolding s1_def by (rule verifyVotes_verified)
  note D = verifiedD [OF v]
  have start: "ledgered e d (lockedState s1) [] (lockedState s1)"
    by (rule ledgered_start) (simp_all add: D)
  have ent: "\<forall>x\<in>set (rangeMap e (dedupVotes s1)).
        map_of (dedupVotes (lockedState s1)) (keyOf (vote (snd x))) = Some (snd x) \<and>
        index (snd x) < length (cbr (lockedState s1))"
  proof
    fix x assume "x \<in> set (rangeMap e (dedupVotes s1))"
    then have x: "x \<in> set (dedupVotes s1)" using rangeOK_set [OF ok] by simp
    show "map_of (dedupVotes (lockedState s1)) (keyOf (vote (snd x))) = Some (snd x) \<and>
        index (snd x) < length (cbr (lockedState s1))"
      using verified_entry(1) [OF v x] verified_entry(2) [OF v x] by simp
  qed
  from ledgered_fold [OF start ent] show ?thesis unfolding s2_def by simp
qed

lemma castVotes_Returned_full:
  assumes "fst (castVotes e fi votes d) = Returned replies"
  shows "lockLock e = None \<and> \<not> shutdown e \<and> gitCheckout e = None \<and> gitPull e = None"
proof (rule ccontr)
  assume "\<not> (lockLock e = None \<and> \<not> shutdown e \<and> gitCheckout e = None \<and> gitPull e = None)"
  then have "\<exists>msg. fst (castVotes e fi votes d) = Failed msg"
    using castVotes_not_full [of e fi votes d] by blast
  then show False using assms by auto
qed

lemma checkDup_trace_mono: "set (trace s) \<subseteq> set (trace (checkDup e s v c))"
  by (auto simp: checkDup_def Let_def split: option.splits)

lemma ledgerStep_trace_mono: "set (trace s) \<subseteq> set (trace (ledgerStep e s x))"
proof (cases "panicked s")
  case (Some msg)
  then show ?thesis by (simp add: ledgerStep_panicked)
next
  case None
  show ?thesis
  proof (cases "files s (Token (vote (snd x)))")
    case (Some c)
    then show ?thesis using None checkDup_trace_mono [of s e "snd x" c]
      by (simp add: ledgerStep_def Let_def)
  next
    case nf: None
    show ?thesis
    proof (cases "openLedger e (Token (vote (snd x))) (ledgers s (Token (vote (snd x))))")
      case (Inl msg)
      then show ?thesis using None nf by (auto simp: ledgerStep_def Let_def)
    next
      case (Inr c)
      then show ?thesis using None nf
          checkDup_trace_mono [of "s\<lparr> trace := trace s @ [OpenLedger (Token (vote (snd x)))],
                files := (files s)(Token (vote (snd x)) \<mapsto> c) \<rparr>" e "snd x" c]
        by (auto simp: ledgerStep_def Let_def)
    qed
  qed
qed

lemma ledgerStep_fold_trace_mono:
  "set (trace s) \<subseteq> set (trace (foldl (ledgerStep e) s xs))"
proof (induction xs arbitrary: s)
  case Nil
  show ?case by simp
next
  case (Cons x xs)
  have "set (trace s) \<subseteq> set (trace (ledgerStep e s x))" by (rule ledgerStep_trace_mono)
  also have "\<dots> \<subseteq> set (trace (foldl (ledgerStep e) (ledgerStep e s x) xs))" by (rule Cons.IH)
  finally show ?case by simp
qed

lemma hit_iff:
  assumes ok: "rangeOK e" and k: "k < length votes"
  shows "(\<exists>x\<in>set (rangeMap e (dedupVotes (verifyVotes e fi votes d))).
            index (snd x) = k \<and> inLedger d (vote (snd x)))
         \<longleftrightarrow> \<not> dupAt e votes k \<and> validVote e (votes ! k) \<and> inLedger d (votes ! k)"
proof -
  let ?s1 = "verifyVotes e fi votes d"
  have v: "verified e fi (length votes) d votes ?s1" by (rule verifyVotes_verified)
  note D = verifiedD [OF v]
  have set: "set (rangeMap e (dedupVotes ?s1)) = set (dedupVotes ?s1)"
    by (rule rangeOK_set [OF ok])
  show ?thesis
  proof
    assume "\<exists>x\<in>set (rangeMap e (dedupVotes ?s1)). index (snd x) = k \<and> inLedger d (vote (snd x))"
    then obtain x where x: "x \<in> set (dedupVotes ?s1)" and i: "index (snd x) = k"
      and l: "inLedger d (vote (snd x))" using set by blast
    have "vote (snd x) = votes ! k" using verified_entry(4) [OF v x] i by simp
    moreover have "validVote e (vote (snd x))" by (rule verified_entry(5) [OF v x])
    moreover have "\<not> dupAt e votes k" using verified_entry(6) [OF v x] i by simp
    ultimately show "\<not> dupAt e votes k \<and> validVote e (votes ! k) \<and> inLedger d (votes ! k)"
      using l by simp
  next
    assume a: "\<not> dupAt e votes k \<and> validVote e (votes ! k) \<and> inLedger d (votes ! k)"
    then have "(keyOf (votes ! k), \<lparr> vote = votes ! k, index = k \<rparr>) \<in> set (dedupVotes ?s1)"
      using D(6) k by blast
    then have "(keyOf (votes ! k), \<lparr> vote = votes ! k, index = k \<rparr>)
                 \<in> set (rangeMap e (dedupVotes ?s1))" using set by simp
    then show "\<exists>x\<in>set (rangeMap e (dedupVotes ?s1)). index (snd x) = k \<and> inLedger d (vote (snd x))"
      using a by force
  qed
qed

lemma castVotes_Returned:
  fixes e :: "('pk, 'fi) env" and fi :: 'fi and votes :: "CastVote list" and d :: disk
  assumes ok: "rangeOK e" and r: "castVotes e fi votes d = (Returned replies, d', tr)"
  defines "xs \<equiv> rangeMap e (dedupVotes (verifyVotes e fi votes d))"
  shows "length replies = length votes"
    and "\<forall>k<length votes. replies ! k = finalReply e fi d votes k"
    and "\<forall>tok. d' tok = d tok @ appended d tok xs"
    and "\<forall>x\<in>set xs. \<exists>c. openLedger e (Token (vote (snd x))) (d (Token (vote (snd x)))) = Inr c"
    and "\<forall>k. ValidateVote k \<in> set tr \<longleftrightarrow> k < length votes \<and> \<not> dupAt e votes k"
proof -
  let ?s1 = "verifyVotes e fi votes d"
  let ?s2 = "foldl (ledgerStep e) (lockedState ?s1) (rangeMap e (dedupVotes ?s1))"
  have v: "verified e fi (length votes) d votes ?s1" by (rule verifyVotes_verified)
  note V = verifiedD [OF v]
  have "fst (castVotes e fi votes d) = Returned replies" using r by simp
  from castVotes_Returned_full [OF this]
  have br: "lockLock e = None" "\<not> shutdown e" "gitCheckout e = None" "gitPull e = None"
    by simp_all
  have full: "(Returned replies, d', tr) =
      (case panicked ?s2 of Some msg \<Rightarrow> Panicked msg | None \<Rightarrow> Returned (cbr ?s2),
       ledgers ?s2, trace ?s2 @ [Unlock])"
    using castVotes_full [OF br, of fi votes d] r by simp
  then have np: "panicked ?s2 = None" by (cases "panicked ?s2") simp_all
  then have rs: "replies = cbr ?s2" and d': "d' = ledgers ?s2" and tr: "tr = trace ?s2 @ [Unlock]"
    using full by simp_all
  from ledger_loop [OF ok, of fi votes d]
  obtain pre where "\<exists>rest. rangeMap e (dedupVotes ?s1) = pre @ rest \<and>
      ledgered e d (lockedState ?s1) pre ?s2 \<and> (panicked ?s2 = None \<longrightarrow> rest = [])" ..
  then obtain rest where c: "rangeMap e (dedupVotes ?s1) = pre @ rest \<and>
      ledgered e d (lockedState ?s1) pre ?s2 \<and> (panicked ?s2 = None \<longrightarrow> rest = [])" ..
  note sp = conjunct1 [OF c] and L = conjunct1 [OF conjunct2 [OF c]]
    and e = conjunct2 [OF conjunct2 [OF c]]
  have pre: "pre = xs" using sp e np by (simp add: xs_def)
  note D = ledgeredD [OF L [unfolded pre]]
  show "length replies = length votes" using D(2) V(1) rs by simp
  show "\<forall>k<length votes. replies ! k = finalReply e fi d votes k"
  proof (intro allI impI)
    fix k assume k: "k < length votes"
    then have "k < length (cbr (lockedState ?s1))" using V(1) by simp
    then have "cbr ?s2 ! k =
         (if \<exists>x\<in>set xs. index (snd x) = k \<and> inLedger d (vote (snd x))
          then (cbr (lockedState ?s1) ! k)\<lparr> Error := alreadyVoted \<rparr>
          else cbr (lockedState ?s1) ! k)"
      using D(4) by blast
    moreover have "cbr (lockedState ?s1) ! k = verifyReply e fi votes k"
      using V(2) k by simp
    ultimately show "replies ! k = finalReply e fi d votes k"
      using hit_iff [OF ok k, of fi d] by (simp add: rs finalReply_def xs_def)
  qed
  show "\<forall>tok. d' tok = d tok @ appended d tok xs" using D(3) d' by simp
  show "\<forall>x\<in>set xs. \<exists>c. openLedger e (Token (vote (snd x))) (d (Token (vote (snd x)))) = Inr c"
  proof
    fix x assume "x \<in> set xs"
    then have "files ?s2 (Token (vote (snd x))) \<noteq> None" using D(6) by blast
    then obtain c where "files ?s2 (Token (vote (snd x))) = Some c" by blast
    then have "openLedger e (Token (vote (snd x))) (d (Token (vote (snd x)))) = Inr c"
      using D(5) by blast
    then show "\<exists>c. openLedger e (Token (vote (snd x))) (d (Token (vote (snd x)))) = Inr c" ..
  qed
  show "\<forall>k. ValidateVote k \<in> set tr \<longleftrightarrow> k < length votes \<and> \<not> dupAt e votes k"
  proof
    fix k
    have "ValidateVote k \<in> set (trace ?s2) \<longleftrightarrow> ValidateVote k \<in> set (trace ?s1)"
    proof
      assume "ValidateVote k \<in> set (trace ?s2)"
      then have "ValidateVote k \<in> set (trace (lockedState ?s1)) \<or>
          (\<exists>tok. ValidateVote k = OpenLedger tok) \<or>
          (\<exists>x\<in>set xs. ValidateVote k = AppendLedger (Token (vote (snd x))) (vote (snd x)))"
        using D(7) by blast
      then show "ValidateVote k \<in> set (trace ?s1)" by auto
    next
      assume "ValidateVote k \<in> set (trace ?s1)"
      then have "ValidateVote k \<in> set (trace (lockedState ?s1))" by simp
      then show "ValidateVote k \<in> set (trace ?s2)"
        using ledgerStep_fold_trace_mono [of "lockedState ?s1" e] by blast
    qed
    then show "ValidateVote k \<in> set tr \<longleftrightarrow> k < length votes \<and> \<not> dupAt e votes k"
      using spec [OF V(8), of k] by (simp add: tr)
  qed
qed

lemma validateVote_error_nonempty:
  assumes "libErrorsNonempty e"
  shows "fst (validateVote e t k b s) \<noteq> Some []"
proof -
  have tx: "httpGetTx e (dcrdata e @ ''api/tx/'' @ k) \<noteq> Inl []"
    and hx: "hexDecodeString e s \<noteq> Inl []"
    using assms by (simp_all add: libErrorsNonempty_def)
  have lc: "fst (largestCommitmentAddress e k) \<noteq> Inl []"
    using tx by (auto simp: largestCommitmentAddress_def largestCommitment_def Let_def
                   split: sum.splits)
  have vm: "\<And>a m g. verifyMessage e a m g \<noteq> Inl []"
    by (auto simp: verifyMessage_def Let_def split: sum.splits prod.splits)
  show ?thesis
    using lc hx vm
    by (auto simp: validateVote_def Let_def split: sum.splits)
qed

lemma finalReply_cases:
  assumes "libErrorsNonempty e"
  shows "(dupAt e votes k \<and>
            finalReply e fi d votes k = \<lparr> ClientSignature = [], ReplySignature = [],
                  Error = ''duplicate vote token '' @ Token (votes ! k) @ '' ticket ''
                            @ Ticket (votes ! k) \<rparr>) \<or>
         (\<not> dupAt e votes k \<and> \<not> validVote e (votes ! k) \<and>
            Error (finalReply e fi d votes k) \<noteq> [] \<and>
            ReplySignature (finalReply e fi d votes k) = [] \<and>
            ClientSignature (finalReply e fi d votes k) = Signature (votes ! k)) \<or>
         (\<not> dupAt e votes k \<and> validVote e (votes ! k) \<and> inLedger d (votes ! k) \<and>
            finalReply e fi d votes k = \<lparr> ClientSignature = Signature (votes ! k),
                  ReplySignature = hexEncodeToString e (SignMessage e fi (Signature (votes ! k))),
                  Error = ''ticket already voted on proposal'' \<rparr>) \<or>
         (\<not> dupAt e votes k \<and> validVote e (votes ! k) \<and> \<not> inLedger d (votes ! k) \<and>
            finalReply e fi d votes k = \<lparr> ClientSignature = Signature (votes ! k),
                  ReplySignature = hexEncodeToString e (SignMessage e fi (Signature (votes ! k))),
                  Error = [] \<rparr>)"
proof (cases "dupAt e votes k")
  case True
  then show ?thesis by (simp add: finalReply_def verifyReply_def Let_def)
next
  case False
  let ?v = "votes ! k"
  show ?thesis
  proof (cases "fst (validateVote e (Token ?v) (Ticket ?v) (VoteBit ?v) (Signature ?v))")
    case None
    then show ?thesis using False
      by (simp add: finalReply_def verifyReply_def validVote_def alreadyVoted_def Let_def)
  next
    case (Some err)
    then have "err \<noteq> []"
      using validateVote_error_nonempty [OF assms(1), of "Token ?v" "Ticket ?v" "VoteBit ?v" "Signature ?v"]
      by auto
    then show ?thesis using False Some
      by (simp add: finalReply_def verifyReply_def validVote_def Let_def)
  qed
qed


lemma ex_env_rangeOK: "rangeOK (ex_env b)"
  by (simp add: rangeOK_def ex_env_def)

lemma ex_env_libErrorsNonempty: "libErrorsNonempty (ex_env b)"
  by (auto simp: libErrorsNonempty_def ex_env_def split: option.splits)

lemma castVotes_triple:
  "fst (castVotes e fi votes d) = r \<Longrightarrow>
   castVotes e fi votes d = (r, fst (snd (castVotes e fi votes d)), snd (snd (castVotes e fi votes d)))"
  by (metis prod.collapse)

subsection \<open>Sequences of calls\<close>

lemma distinct_filter_le1:
  "distinct (map f xs) \<Longrightarrow> length (filter (\<lambda>x. P x \<and> f x = k) xs) \<le> 1"
proof (induction xs)
  case Nil
  show ?case by simp
next
  case (Cons x xs)
  show ?case
  proof (cases "f x = k")
    case True
    have "f x \<notin> f ` set xs" using Cons.prems by simp
    then have "\<forall>y\<in>set xs. f y \<noteq> k" using True by blast
    then have "filter (\<lambda>x. P x \<and> f x = k) xs = []" by (auto simp: filter_empty_conv)
    then show ?thesis by simp
  next
    case False
    then show ?thesis using Cons by simp
  qed
qed

lemma ledgerCount_appended:
  assumes dis: "distinct (map fst pre)"
    and key: "\<forall>x\<in>set pre. fst x = keyOf (vote (snd x))"
    and le: "ledgerCount d T K \<le> 1"
  shows "ledgerCount (\<lambda>tok. d tok @ appended d tok pre) T K \<le> 1"
proof -
  let ?vs = "map (\<lambda>x. vote (snd x)) pre"
  let ?Q = "\<lambda>v. Token v = T \<and> Ticket v = K"
  let ?A = "filter ?Q (entries (d T))"
  let ?B = "filter (\<lambda>v. (Token v = T \<and> Ticket v = K \<and> \<not> inLedger d v) \<and> keyOf v = T @ K) ?vs"
  have "map keyOf ?vs = map fst pre" using key by (induction pre) simp_all
  then have dk: "distinct (map keyOf ?vs)" using dis by metis
  have B1: "length ?B \<le> 1" using dk by (rule distinct_filter_le1)
  have fe: "filter ?Q (filter (\<lambda>v. Token v = T \<and> \<not> inLedger d v) ?vs) = ?B"
    unfolding filter_filter by (rule filter_cong) (auto simp: keyOf_def)
  have cnt: "ledgerCount (\<lambda>tok. d tok @ appended d tok pre) T K = length ?A + length ?B"
    unfolding ledgerCount_def appended_def entries_append entries_map_Rec filter_append fe
    by simp
  show ?thesis
  proof (cases "?A = []")
    case True
    then show ?thesis using cnt B1 by simp
  next
    case False
    then obtain v where v: "v \<in> set (entries (d T))" and q: "Token v = T" "Ticket v = K"
      by (auto simp: filter_empty_conv)
    have "\<forall>w\<in>set ?vs. \<not> ((Token w = T \<and> Ticket w = K \<and> \<not> inLedger d w) \<and> keyOf w = T @ K)"
    proof (intro ballI notI)
      fix w assume "(Token w = T \<and> Ticket w = K \<and> \<not> inLedger d w) \<and> keyOf w = T @ K"
      then have w: "Token w = T" "Ticket w = K" "\<not> inLedger d w" by simp_all
      have "keyOf w = keyOf v" using w q by (simp add: keyOf_def)
      then have "keyOf w \<in> keyOf ` set (entries (d (Token w)))" using v w(1) by simp
      then show False using w(3) by (simp add: inLedger_def)
    qed
    then have "?B = []" unfolding filter_empty_conv by blast
    then show ?thesis using cnt le by (simp add: ledgerCount_def)
  qed
qed

lemma castVotes_disk:
  fixes e :: "('pk, 'fi) env" and fi :: 'fi and votes :: "CastVote list" and d :: disk
  assumes ok: "rangeOK e"
  shows "\<exists>pre. distinct (map fst pre) \<and> (\<forall>x\<in>set pre. fst x = keyOf (vote (snd x))) \<and>
           (\<forall>tok. fst (snd (castVotes e fi votes d)) tok = d tok @ appended d tok pre)"
proof (cases "lockLock e = None \<and> \<not> shutdown e \<and> gitCheckout e = None \<and> gitPull e = None")
  case False
  have "fst (snd (castVotes e fi votes d)) = d"
    using castVotes_not_full [OF False, of fi votes d] by (rule conjunct1 [OF conjunct2])
  then have "distinct (map fst ([] :: (string \<times> dedupVote) list)) \<and>
       (\<forall>x\<in>set ([] :: (string \<times> dedupVote) list). fst x = keyOf (vote (snd x))) \<and>
       (\<forall>tok. fst (snd (castVotes e fi votes d)) tok = d tok @ appended d tok [])"
    by (simp add: appended_def)
  then show ?thesis ..
next
  case True
  let ?s1 = "verifyVotes e fi votes d"
  let ?s2 = "foldl (ledgerStep e) (lockedState ?s1) (rangeMap e (dedupVotes ?s1))"
  have br: "lockLock e = None" "\<not> shutdown e" "gitCheckout e = None" "gitPull e = None"
    using True by simp_all
  have dsk: "fst (snd (castVotes e fi votes d)) = ledgers ?s2"
    unfolding castVotes_full [OF br] by simp
  have v: "verified e fi (length votes) d votes ?s1" by (rule verifyVotes_verified)
  from ledger_loop [OF ok, of fi votes d]
  obtain pre rest where pr: "rangeMap e (dedupVotes ?s1) = pre @ rest"
    and lg: "ledgered e d (lockedState ?s1) pre ?s2" by blast
  have "distinct (map fst (rangeMap e (dedupVotes ?s1)))"
    by (rule rangeOK_distinct [OF ok verifiedD(7) [OF v]])
  then have d1: "distinct (map fst pre)" unfolding pr by simp
  have d2: "\<forall>x\<in>set pre. fst x = keyOf (vote (snd x))"
  proof
    fix x assume "x \<in> set pre"
    then have "x \<in> set (rangeMap e (dedupVotes ?s1))" unfolding pr by simp
    then have "x \<in> set (dedupVotes ?s1)" using rangeOK_set [OF ok] by simp
    then show "fst x = keyOf (vote (snd x))" by (rule verified_entry(7) [OF v])
  qed
  have d3: "\<forall>tok. fst (snd (castVotes e fi votes d)) tok = d tok @ appended d tok pre"
    unfolding dsk by (rule ledgeredD(3) [OF lg])
  from d1 d2 d3 show ?thesis by blast
qed

lemma castVotes_ledgerCount:
  fixes e :: "('pk, 'fi) env"
  assumes ok: "rangeOK e" and le: "\<forall>T K. ledgerCount d T K \<le> 1"
  shows "ledgerCount (fst (snd (castVotes e fi votes d))) T K \<le> 1"
proof -
  from castVotes_disk [OF ok, of fi votes d]
  obtain pre where d1: "distinct (map fst pre)"
    and d2: "\<forall>x\<in>set pre. fst x = keyOf (vote (snd x))"
    and d3: "\<forall>tok. fst (snd (castVotes e fi votes d)) tok = d tok @ appended d tok pre"
    by blast
  have eq: "fst (snd (castVotes e fi votes d)) = (\<lambda>tok. d tok @ appended d tok pre)"
    using d3 by (intro ext) simp
  have "ledgerCount d T K \<le> 1" using le by simp
  from ledgerCount_appended [OF d1 d2 this] show ?thesis unfolding eq .
qed

lemma pluginCastVotes_disk:
  "fst (snd (pluginCastVotes e p d)) = d \<or>
   (\<exists>fi votes. fst (snd (pluginCastVotes e p d)) = fst (snd (castVotes e fi votes d)))"
proof (cases "DecodeCastVotes e p")
  case (Inl err)
  then show ?thesis by (simp add: pluginCastVotes_def)
next
  case (Inr votes)
  note dc = this
  show ?thesis
  proof (cases "settings e decredPluginIdentity")
    case None
    then show ?thesis using dc by (simp add: pluginCastVotes_def)
  next
    case (Some j)
    note st = this
    show ?thesis
    proof (cases "UnmarshalFullIdentity e j")
      case (Inl err)
      then show ?thesis using dc st by (simp add: pluginCastVotes_def)
    next
      case (Inr fi)
      obtain r d' tr where c: "castVotes e fi votes d = (r, d', tr)"
        by (cases "castVotes e fi votes d") auto
      have "fst (snd (pluginCastVotes e p d)) = d'"
        using dc st Inr c
        by (cases r) (simp_all add: pluginCastVotes_def split: sum.splits)
      then have "fst (snd (pluginCastVotes e p d)) = fst (snd (castVotes e fi votes d))"
        using c by simp
      then show ?thesis by blast
    qed
  qed
qed

lemma pluginCastVotes_ledgerCount:
  fixes e :: "('pk, 'fi) env"
  assumes ok: "rangeOK e" and le: "\<forall>T K. ledgerCount d T K \<le> 1"
  shows "ledgerCount (fst (snd (pluginCastVotes e p d))) T K \<le> 1"
  using pluginCastVotes_disk [of e p d]
proof
  assume "fst (snd (pluginCastVotes e p d)) = d"
  then show ?thesis using le by simp
next
  assume "\<exists>fi votes. fst (snd (pluginCastVotes e p d)) = fst (snd (castVotes e fi votes d))"
  then obtain fi votes
    where "fst (snd (pluginCastVotes e p d)) = fst (snd (castVotes e fi votes d))" by blast
  then show ?thesis using castVotes_ledgerCount [OF ok le, of fi votes T K] by simp
qed

lemma castVotesCalls_ledgerCount:
  fixes calls :: "(('pk, 'fi) env \<times> string) list"
  assumes "\<forall>c\<in>set calls. rangeOK (fst c)" and "\<forall>T K. ledgerCount d T K \<le> 1"
  shows "\<forall>T K. ledgerCount (castVotesCalls calls d) T K \<le> 1"
  using assms
proof (induction calls arbitrary: d)
  case Nil
  then show ?case by simp
next
  case (Cons c cs)
  have ok: "rangeOK (fst c)" using Cons.prems(1) by simp
  have "\<forall>T K. ledgerCount (fst (snd (pluginCastVotes (fst c) (snd c) d))) T K \<le> 1"
    using pluginCastVotes_ledgerCount [OF ok Cons.prems(2)] by blast
  moreover have "\<forall>c\<in>set cs. rangeOK (fst c)" using Cons.prems(1) by simp
  ultimately have "\<forall>T K. ledgerCount (castVotesCalls cs (fst (snd (pluginCastVotes (fst c) (snd c) d)))) T K \<le> 1"
    by (rule Cons.IH [rotated])
  then show ?case by simp
qed


subsection \<open>A second call with the same batch\<close>

text \<open>The order of \<^verbatim>\<open>range\<close> plays no part in the checks of a vote or in the opening of a
  ledger.\<close>

lemma verifyMessage_rangeMap [simp]:
  "verifyMessage (e\<lparr> rangeMap := r \<rparr>) a m g = verifyMessage e a m g"
  by (simp add: verifyMessage_def Let_def cong: sum.case_cong prod.case_cong if_cong)

lemma largestCommitmentAddress_rangeMap [simp]:
  "largestCommitmentAddress (e\<lparr> rangeMap := r \<rparr>) k = largestCommitmentAddress e k"
  by (simp add: largestCommitmentAddress_def dcrdata_def Let_def cong: sum.case_cong)

lemma validateVote_rangeMap [simp]:
  "validateVote (e\<lparr> rangeMap := r \<rparr>) t k b s = validateVote e t k b s"
  by (simp add: validateVote_def Let_def cong: sum.case_cong)

lemma validVote_rangeMap [simp]: "validVote (e\<lparr> rangeMap := r \<rparr>) v = validVote e v"
  by (simp add: validVote_def)

lemma dupAt_rangeMap [simp]: "dupAt (e\<lparr> rangeMap := r \<rparr>) votes k = dupAt e votes k"
  by (simp add: dupAt_def validKeys_def)

lemma openLedger_rangeMap [simp]:
  "openLedger (e\<lparr> rangeMap := r \<rparr>) tok rs = openLedger e tok rs"
  by (simp add: openLedger_def)

lemma checkDup_hit:
  "keyOf (vote v) \<in> c \<Longrightarrow> panicked (checkDup e s v c) = panicked s"
  by (simp add: checkDup_def Let_def keyOf_def)

lemma ledgerStep_hit:
  fixes x :: "string \<times> dedupVote"
  assumes inv: "ledgered e d0 s0 pre s" and np: "panicked s = None"
    and op: "openLedger e (Token (vote (snd x))) (d0 (Token (vote (snd x)))) = Inr c"
    and hit: "inLedger d0 (vote (snd x))"
  shows "panicked (ledgerStep e s x) = None"
proof -
  note D = ledgeredD [OF inv]
  let ?v = "vote (snd x)"
  let ?tok = "Token ?v"
  have c: "c = keyOf ` set (entries (d0 ?tok))" using op by (simp add: openLedger_Inr)
  have kc: "keyOf (vote (snd x)) \<in> c" using hit by (simp add: c inLedger_def)
  show ?thesis
  proof (cases "files s ?tok")
    case (Some c')
    then have "openLedger e ?tok (d0 ?tok) = Inr c'" using D(5) by blast
    then have cc: "c' = c" using op by simp
    have "ledgerStep e s x = checkDup e s (snd x) c"
      using np Some cc by (simp add: ledgerStep_def Let_def)
    then show ?thesis using checkDup_hit [OF kc, of e s] np by simp
  next
    case None
    let ?s1 = "s\<lparr> trace := trace s @ [OpenLedger ?tok] \<rparr>"
    let ?s2 = "?s1\<lparr> files := (files ?s1)(?tok \<mapsto> c) \<rparr>"
    have "\<forall>y\<in>set pre. Token (vote (snd y)) \<noteq> ?tok"
    proof
      fix y assume "y \<in> set pre"
      then have "files s (Token (vote (snd y))) \<noteq> None" using D(6) by blast
      then show "Token (vote (snd y)) \<noteq> ?tok" using None by auto
    qed
    then have "appended d0 ?tok pre = []" by (rule appended_none)
    then have led: "ledgers s ?tok = d0 ?tok" using spec [OF D(3), of ?tok] by simp
    have s': "ledgerStep e s x = checkDup e ?s2 (snd x) c"
      using np None led op by (simp add: ledgerStep_def Let_def)
    show ?thesis unfolding s' using checkDup_hit [OF kc, of e ?s2] np by simp
  qed
qed

lemma ledgered_fold_hits:
  assumes "ledgered e d0 s0 pre s" and "panicked s = None"
    and "\<forall>x\<in>set xs. map_of (dedupVotes s0) (keyOf (vote (snd x))) = Some (snd x) \<and>
           index (snd x) < length (cbr s0) \<and>
           (\<exists>c. openLedger e (Token (vote (snd x))) (d0 (Token (vote (snd x)))) = Inr c) \<and>
           inLedger d0 (vote (snd x))"
  shows "panicked (foldl (ledgerStep e) s xs) = None"
  using assms
proof (induction xs arbitrary: pre s)
  case Nil
  then show ?case by simp
next
  case (Cons x xs)
  have look: "map_of (dedupVotes s0) (keyOf (vote (snd x))) = Some (snd x)"
    and idx: "index (snd x) < length (cbr s0)"
    and hit: "inLedger d0 (vote (snd x))"
    using Cons.prems(3) by simp_all
  have "\<exists>c. openLedger e (Token (vote (snd x))) (d0 (Token (vote (snd x)))) = Inr c"
    using Cons.prems(3) by simp
  then obtain c where op: "openLedger e (Token (vote (snd x))) (d0 (Token (vote (snd x)))) = Inr c" ..
  have np: "panicked (ledgerStep e s x) = None"
    by (rule ledgerStep_hit [OF Cons.prems(1,2) op hit])
  have inv: "ledgered e d0 s0 (pre @ [x]) (ledgerStep e s x)"
    using ledgerStep_ledgered [OF Cons.prems(1,2) look idx] np by blast
  have rest: "\<forall>x\<in>set xs. map_of (dedupVotes s0) (keyOf (vote (snd x))) = Some (snd x) \<and>
           index (snd x) < length (cbr s0) \<and>
           (\<exists>c. openLedger e (Token (vote (snd x))) (d0 (Token (vote (snd x)))) = Inr c) \<and>
           inLedger d0 (vote (snd x))"
    using Cons.prems(3) by simp
  have "panicked (foldl (ledgerStep e) (ledgerStep e s x) xs) = None"
    by (rule Cons.IH [OF inv np rest])
  then show ?case by simp
qed

lemma openLedger_appended:
  assumes op: "openLedger e tok (d tok) = Inr c"
    and dis: "distinct (map fst pre)"
    and key: "\<forall>x\<in>set pre. fst x = keyOf (vote (snd x))"
  shows "\<exists>c'. openLedger e tok (d tok @ appended d tok pre) = Inr c'"
proof -
  let ?vs = "map (\<lambda>x. vote (snd x)) pre"
  define B where "B = filter (\<lambda>v. Token v = tok \<and> \<not> inLedger d v) ?vs"
  define A where "A = entries (d tok)"
  have o: "OpenFile e tok = None" and nc: "noCorrupt (d tok)"
    and da: "distinct (map keyOf A)"
    using op by (simp_all add: openLedger_Inr A_def)
  have "map keyOf ?vs = map fst pre" using key by (induction pre) simp_all
  then have dk: "distinct (map keyOf ?vs)" using dis by metis
  have dB: "distinct (map keyOf B)" unfolding B_def using dk by (rule distinct_map_filter)
  have nb: "keyOf w \<notin> keyOf ` set A" if "w \<in> set B" for w
  proof -
    have "Token w = tok" "\<not> inLedger d w" using that by (simp_all add: B_def)
    then show ?thesis by (simp add: inLedger_def A_def)
  qed
  have dj: "keyOf ` set A \<inter> keyOf ` set B = {}"
  proof (rule ccontr)
    assume "keyOf ` set A \<inter> keyOf ` set B \<noteq> {}"
    then obtain k where k1: "k \<in> keyOf ` set A" and k2: "k \<in> keyOf ` set B" by auto
    from k2 obtain w where "w \<in> set B" "k = keyOf w" by auto
    then show False using nb [of w] k1 by simp
  qed
  have ent: "entries (d tok @ appended d tok pre) = A @ B"
    by (simp add: appended_def A_def B_def)
  have "distinct (map keyOf (entries (d tok @ appended d tok pre)))"
    unfolding ent using da dB dj by simp
  moreover have "noCorrupt (d tok @ appended d tok pre)" using nc by (simp add: appended_def)
  ultimately have "openLedger e tok (d tok @ appended d tok pre)
      = Inr (keyOf ` set (entries (d tok @ appended d tok pre)))"
    using o unfolding openLedger_Inr by simp
  then show ?thesis ..
qed


lemma vote_in_map: "(a, b) \<in> set xs \<Longrightarrow> vote b \<in> set (map (\<lambda>x. vote (snd x)) xs)"
  by force

lemma finalReply_accepted:
  assumes "libErrorsNonempty e" and "Error (finalReply e fi d votes k) = []"
  shows "\<not> dupAt e votes k \<and> validVote e (votes ! k) \<and> \<not> inLedger d (votes ! k)"
  using finalReply_cases [OF assms(1), of votes k fi d] assms(2)
  by (elim disjE conjE) simp_all

lemma appended_all_hits:
  "\<forall>y\<in>set ys. inLedger d (vote (snd y)) \<Longrightarrow> appended d tok ys = []"
  by (auto simp: appended_def filter_empty_conv)







text \<open>
  Claim C10. When the setting \<^verbatim>\<open>fullidentity\<close> is absent, or its value does not unmarshal
  to an identity, \<^verbatim>\<open>pluginCastVotes\<close> returns an error, the disk is as it was and the call has
  done nothing outside: no vote was handed to \<^verbatim>\<open>validateVote\<close>, the lock was not asked
  for, no ledger was opened. When the setting holds an identity and the call returns its
  replies, the reply to every vote without an error text holds the signature of the vote's
  signature by that identity, in hexadecimal.
\<close>

theorem pluginCastVotes_identity:
  "((settings e decredPluginIdentity = None \<or>
      (\<exists>j err. settings e decredPluginIdentity = Some j \<and> UnmarshalFullIdentity e j = Inl err))
     \<longrightarrow> (\<exists>msg. pluginCastVotes e payload d = (Failed msg, d, []))) \<and>
   (\<forall>j fi votes reply d' tr.
      settings e decredPluginIdentity = Some j \<and> UnmarshalFullIdentity e j = Inr fi \<and>
      DecodeCastVotes e payload = Inr votes \<and> rangeOK e \<and> libErrorsNonempty e \<and>
      pluginCastVotes e payload d = (Returned reply, d', tr) \<longrightarrow>
      (\<exists>replies. castVotes e fi votes d = (Returned replies, d', tr) \<and>
          EncodeCastVoteReplies e replies = Inr reply \<and> length replies = length votes \<and>
          (\<forall>k<length votes. Error (replies ! k) = [] \<longrightarrow>
             ReplySignature (replies ! k)
               = hexEncodeToString e (SignMessage e fi (Signature (votes ! k))))))"
proof (intro conjI allI impI)
  assume "settings e decredPluginIdentity = None \<or>
      (\<exists>j err. settings e decredPluginIdentity = Some j \<and> UnmarshalFullIdentity e j = Inl err)"
  then show "\<exists>msg. pluginCastVotes e payload d = (Failed msg, d, [])"
    by (auto simp: pluginCastVotes_def split: sum.splits)
next
  fix j fi votes reply d' tr
  assume a: "settings e decredPluginIdentity = Some j \<and> UnmarshalFullIdentity e j = Inr fi \<and>
      DecodeCastVotes e payload = Inr votes \<and> rangeOK e \<and> libErrorsNonempty e \<and>
      pluginCastVotes e payload d = (Returned reply, d', tr)"
  then have p: "pluginCastVotes e payload d = (Returned reply, d', tr)" by simp
  obtain out d2 tr2 where c: "castVotes e fi votes d = (out, d2, tr2)"
    by (cases "castVotes e fi votes d") auto
  have unf: "pluginCastVotes e payload d =
      (case (out, d2, tr2) of
         (Returned replies, d', tr) \<Rightarrow>
           (case EncodeCastVoteReplies e replies of
              Inl err \<Rightarrow> (Failed (''Could not encode CastVoteReply '' @ err), d', tr)
            | Inr reply \<Rightarrow> (Returned reply, d', tr))
       | (Failed msg, d', tr) \<Rightarrow> (Failed msg, d', tr)
       | (Panicked msg, d', tr) \<Rightarrow> (Panicked msg, d', tr))"
    using a c by (simp add: pluginCastVotes_def)
  from unf p obtain replies where o: "out = Returned replies"
    by (cases out) simp_all
  have enc: "EncodeCastVoteReplies e replies = Inr reply" and dd: "d2 = d'" and tt: "tr2 = tr"
    using unf p o by (cases "EncodeCastVoteReplies e replies"; simp)+
  have c': "castVotes e fi votes d = (Returned replies, d', tr)" using c o dd tt by simp
  have ok: "rangeOK e" and le: "libErrorsNonempty e" using a by simp_all
  have len: "length replies = length votes" by (rule castVotes_Returned(1) [OF ok c'])
  have sig: "\<forall>k<length votes. Error (replies ! k) = [] \<longrightarrow>
             ReplySignature (replies ! k)
               = hexEncodeToString e (SignMessage e fi (Signature (votes ! k)))"
  proof (intro allI impI)
    fix k assume k: "k < length votes" and e0: "Error (replies ! k) = []"
    have r: "replies ! k = finalReply e fi d votes k"
      using castVotes_Returned(2) [OF ok c'] k by blast
    show "ReplySignature (replies ! k)
               = hexEncodeToString e (SignMessage e fi (Signature (votes ! k)))"
      using finalReply_cases [OF le, of votes k fi d] e0 unfolding r by auto
  qed
  show "\<exists>replies. castVotes e fi votes d = (Returned replies, d', tr) \<and>
          EncodeCastVoteReplies e replies = Inr reply \<and> length replies = length votes \<and>
          (\<forall>k<length votes. Error (replies ! k) = [] \<longrightarrow>
             ReplySignature (replies ! k)
               = hexEncodeToString e (SignMessage e fi (Signature (votes ! k))))"
    using c' enc len sig by blast
qed

text \<open>Instances: the example environment without its settings, and with them.\<close>

theorem pluginCastVotes_identity_witness:
  "settings ((ex_env 100)\<lparr> settings := Map.empty \<rparr>) decredPluginIdentity = None \<and>
   pluginCastVotes ((ex_env 100)\<lparr> settings := Map.empty \<rparr>) ''DsAliceabc123T11'' ex_disk_empty
     = (Failed ''full identity not set'', ex_disk_empty, []) \<and>
   settings (ex_env 100) decredPluginIdentity = Some ''{id}'' \<and>
   UnmarshalFullIdentity (ex_env 100) ''{id}'' = Inr ''id'' \<and>
   DecodeCastVotes (ex_env 100) ''DsAliceabc123T11'' = Inr [ex_vote1] \<and>
   rangeOK (ex_env 100) \<and> libErrorsNonempty (ex_env 100) \<and>
   fst (pluginCastVotes (ex_env 100) ''DsAliceabc123T11'' ex_disk_empty) = Returned [] \<and>
   fst (castVotes (ex_env 100) ''id'' [ex_vote1] ex_disk_empty)
     = Returned [\<lparr> ClientSignature = ''DsAliceabc123T11'',
                   ReplySignature = ''idDsAliceabc123T11'', Error = [] \<rparr>]"
proof -
  let ?e0 = "(ex_env 100)\<lparr> settings := Map.empty \<rparr>"
  have s0: "settings ?e0 decredPluginIdentity = None" by simp
  from conjunct1 [OF pluginCastVotes_identity [of ?e0 "''DsAliceabc123T11''" ex_disk_empty]] s0
  obtain msg where f: "pluginCastVotes ?e0 ''DsAliceabc123T11'' ex_disk_empty
                         = (Failed msg, ex_disk_empty, [])" by blast
  have "fst (pluginCastVotes ?e0 ''DsAliceabc123T11'' ex_disk_empty) = Failed ''full identity not set''"
    by (simp add: pluginCastVotes_def ex_env_def decredPluginIdentity_def)
  then have f': "pluginCastVotes ?e0 ''DsAliceabc123T11'' ex_disk_empty
                         = (Failed ''full identity not set'', ex_disk_empty, [])"
    using f by simp
  have s1: "settings (ex_env 100) decredPluginIdentity = Some ''{id}''"
    and u: "UnmarshalFullIdentity (ex_env 100) ''{id}'' = Inr ''id''"
    and dc: "DecodeCastVotes (ex_env 100) ''DsAliceabc123T11'' = Inr [ex_vote1]"
    by (simp_all add: ex_env_def decredPluginIdentity_def ex_vote1_def)
  have c: "fst (castVotes (ex_env 100) ''id'' [ex_vote1] ex_disk_empty)
     = Returned [\<lparr> ClientSignature = ''DsAliceabc123T11'',
                   ReplySignature = ''idDsAliceabc123T11'', Error = [] \<rparr>]"
    by (simp add: castVotes_defs ex_defs)
  obtain d' tr where t: "castVotes (ex_env 100) ''id'' [ex_vote1] ex_disk_empty
     = (Returned [\<lparr> ClientSignature = ''DsAliceabc123T11'',
                   ReplySignature = ''idDsAliceabc123T11'', Error = [] \<rparr>], d', tr)"
    using c by (cases "castVotes (ex_env 100) ''id'' [ex_vote1] ex_disk_empty") auto
  have enc: "EncodeCastVoteReplies (ex_env 100)
       [\<lparr> ClientSignature = ''DsAliceabc123T11'',
                   ReplySignature = ''idDsAliceabc123T11'', Error = [] \<rparr>] = Inr []"
    by (simp add: ex_env_def)
  have p: "fst (pluginCastVotes (ex_env 100) ''DsAliceabc123T11'' ex_disk_empty) = Returned []"
    by (simp add: pluginCastVotes_def s1 u dc t enc)
  show ?thesis using s0 f' s1 u dc c p ex_env_rangeOK [of 100] ex_env_libErrorsNonempty [of 100]
    by simp
qed

text \<open>
  Claim C1. Take a disk on which no ledger holds two votes of one ticket on its proposal
  (the empty disk is one), and any sequence of calls of \<^verbatim>\<open>pluginCastVotes\<close>, whatever the
  payloads, the answers of the network and the outcomes of the calls, where \<^verbatim>\<open>range\<close> visits
  every entry of the map of votes once. Then for every proposal \<open>T\<close> and ticket \<open>K\<close> the
  ledger of \<open>T\<close> holds at most one vote of \<open>K\<close> on \<open>T\<close>. The mechanism, in every call: what the
  call writes to a ledger comes after what the ledger held, and is made of votes on that
  proposal whose key was not among the keys of the ledger when the call began; and when the
  call returns its replies, a vote that passed the signature check, was not a repetition
  inside the batch, and whose key the ledger held is answered with
  \<^verbatim>\<open>ticket already voted on proposal\<close>.
\<close>

theorem ledger_at_most_one_entry:
  fixes calls :: "(('pk, 'fi) env \<times> string) list" and e :: "('pk, 'fi) env"
  assumes "\<forall>c\<in>set calls. rangeOK (fst c)" and "\<forall>T K. ledgerCount d0 T K \<le> 1"
    and "rangeOK e"
  shows "ledgerCount (castVotesCalls calls d0) T K \<le> 1 \<and>
    (\<forall>tok. \<exists>new. fst (snd (castVotes e fi votes d)) tok = d tok @ map Rec new \<and>
        (\<forall>v\<in>set new. Token v = tok \<and> \<not> inLedger d v)) \<and>
    (\<forall>replies. fst (castVotes e fi votes d) = Returned replies \<longrightarrow>
       (\<forall>k<length votes. \<not> dupAt e votes k \<and> validVote e (votes ! k) \<and> inLedger d (votes ! k)
           \<longrightarrow> Error (replies ! k) = ''ticket already voted on proposal''))"
proof (intro conjI allI impI)
  show "ledgerCount (castVotesCalls calls d0) T K \<le> 1"
    using castVotesCalls_ledgerCount [OF assms(1,2)] by blast
next
  fix tok
  from castVotes_disk [OF assms(3), of fi votes d]
  obtain pre where "\<forall>tok. fst (snd (castVotes e fi votes d)) tok = d tok @ appended d tok pre"
    by blast
  then have "fst (snd (castVotes e fi votes d)) tok = d tok @ appended d tok pre" by blast
  then have "fst (snd (castVotes e fi votes d)) tok
       = d tok @ map Rec (filter (\<lambda>v. Token v = tok \<and> \<not> inLedger d v) (map (\<lambda>x. vote (snd x)) pre))
     \<and> (\<forall>v\<in>set (filter (\<lambda>v. Token v = tok \<and> \<not> inLedger d v) (map (\<lambda>x. vote (snd x)) pre)).
          Token v = tok \<and> \<not> inLedger d v)"
    by (simp add: appended_def)
  then show "\<exists>new. fst (snd (castVotes e fi votes d)) tok = d tok @ map Rec new \<and>
        (\<forall>v\<in>set new. Token v = tok \<and> \<not> inLedger d v)" ..
next
  fix replies k
  assume r: "fst (castVotes e fi votes d) = Returned replies" and k: "k < length votes"
    and h: "\<not> dupAt e votes k \<and> validVote e (votes ! k) \<and> inLedger d (votes ! k)"
  from castVotes_Returned(2) [OF assms(3) castVotes_triple [OF r]] k
  have "replies ! k = finalReply e fi d votes k" by blast
  then show "Error (replies ! k) = ''ticket already voted on proposal''"
    using h by (simp add: finalReply_def alreadyVoted_def)
qed


text \<open>An instance: the same vote sent in two calls, starting from the empty disk. The
  ledger holds it once, and the second call answers that the ticket has voted.\<close>

theorem ledger_at_most_one_entry_witness:
  "rangeOK (ex_env 100) \<and>
   ledgerCount ex_disk_empty ''abc123'' ''T1'' = 0 \<and>
   ledgerCount (castVotesCalls [(ex_env 100, ''DsAliceabc123T11''), (ex_env 100, ''DsAliceabc123T11'')]
                  ex_disk_empty) ''abc123'' ''T1'' \<le> 1 \<and>
   castVotesCalls [(ex_env 100, ''DsAliceabc123T11''), (ex_env 100, ''DsAliceabc123T11'')]
                  ex_disk_empty ''abc123'' = [Rec ex_vote1] \<and>
   \<not> dupAt (ex_env 100) [ex_vote1] 0 \<and> validVote (ex_env 100) ex_vote1 \<and>
   inLedger ex_disk_voted ex_vote1 \<and>
   fst (castVotes (ex_env 100) ''id'' [ex_vote1] ex_disk_voted)
     = Returned [\<lparr> ClientSignature = ''DsAliceabc123T11'',
                   ReplySignature = ''idDsAliceabc123T11'',
                   Error = ''ticket already voted on proposal'' \<rparr>] \<and>
   fst (snd (castVotes (ex_env 100) ''id'' [ex_vote1] ex_disk_voted)) ''abc123'' = [Rec ex_vote1]"
proof -
  let ?p = "''DsAliceabc123T11''"
  let ?calls = "[(ex_env 100, ?p), (ex_env 100, ?p)]"
  have h1: "\<forall>c\<in>set ?calls. rangeOK (fst c)" using ex_env_rangeOK [of 100] by simp
  have h2: "\<forall>T K. ledgerCount ex_disk_empty T K \<le> 1"
    by (simp add: ledgerCount_def ex_disk_empty_def)
  have c: "ledgerCount (castVotesCalls ?calls ex_disk_empty) ''abc123'' ''T1'' \<le> 1"
    by (rule conjunct1 [OF ledger_at_most_one_entry [where e = "ex_env 100" and fi = "''id''"
              and votes = "[ex_vote1]" and d = ex_disk_voted, OF h1 h2 ex_env_rangeOK]])
  have d1: "fst (snd (pluginCastVotes (ex_env 100) ?p ex_disk_empty)) = ex_disk_voted"
    by (rule ext) (simp add: pluginCastVotes_def castVotes_defs ex_defs decredPluginIdentity_def)
  have d2: "fst (snd (pluginCastVotes (ex_env 100) ?p ex_disk_voted)) ''abc123'' = [Rec ex_vote1]"
    by (simp add: pluginCastVotes_def castVotes_defs ex_defs decredPluginIdentity_def)
  have d: "castVotesCalls ?calls ex_disk_empty ''abc123'' = [Rec ex_vote1]"
    by (simp add: d1 d2)
  have z: "ledgerCount ex_disk_empty ''abc123'' ''T1'' = 0"
    by (simp add: ledgerCount_def ex_disk_empty_def)
  have v: "\<not> dupAt (ex_env 100) [ex_vote1] 0" "inLedger ex_disk_voted ex_vote1"
    by (simp_all add: dupAt_def validKeys_def inLedger_def ex_disk_voted_def ex_vote1_def)
  have vv: "validVote (ex_env 100) ex_vote1"
    by (simp add: validVote_def castVotes_defs ex_defs)
  have r: "fst (castVotes (ex_env 100) ''id'' [ex_vote1] ex_disk_voted)
     = Returned [\<lparr> ClientSignature = ''DsAliceabc123T11'',
                   ReplySignature = ''idDsAliceabc123T11'',
                   Error = ''ticket already voted on proposal'' \<rparr>]"
    by (simp add: castVotes_defs ex_defs)
  have l: "fst (snd (castVotes (ex_env 100) ''id'' [ex_vote1] ex_disk_voted)) ''abc123'' = [Rec ex_vote1]"
    by (simp add: castVotes_defs ex_defs)
  show ?thesis using ex_env_rangeOK [of 100] z c d v vv r l by simp
qed

text \<open>
  Claim C2. Let a call of \<^verbatim>\<open>pluginCastVotes\<close> return its replies for a batch, every one of
  them without an error. Then a second call with the same batch, on the disk the first call
  left, in the same environment (the network, the file system, the lock and git answer as
  they did; \<^verbatim>\<open>range\<close> may visit the map of votes in another order), returns its replies, one
  per vote, every one with the error \<^verbatim>\<open>ticket already voted on proposal\<close>, and leaves every
  ledger as it was: the same contents, hence the same length.
\<close>

theorem castVotes_idempotent:
  fixes e :: "('pk, 'fi) env" and fi :: 'fi and votes :: "CastVote list" and d :: disk
  assumes ok: "rangeOK e" and ok2: "rangeOK (e\<lparr> rangeMap := r \<rparr>)"
    and lib: "libErrorsNonempty e"
    and first: "castVotes e fi votes d = (Returned replies, d1, tr)"
    and acc: "\<forall>k<length votes. Error (replies ! k) = []"
  shows "\<exists>replies' tr'.
           castVotes (e\<lparr> rangeMap := r \<rparr>) fi votes d1 = (Returned replies', d1, tr') \<and>
           length replies' = length votes \<and>
           (\<forall>k<length votes. Error (replies' ! k) = ''ticket already voted on proposal'')"
proof -
  define e2 where "e2 = e\<lparr> rangeMap := r \<rparr>"
  define xs where "xs = rangeMap e (dedupVotes (verifyVotes e fi votes d))"
  define t1 where "t1 = verifyVotes e2 fi votes d1"
  define ys where "ys = rangeMap e2 (dedupVotes t1)"
  define t2 where "t2 = foldl (ledgerStep e2) (lockedState t1) ys"
  have same: "\<And>v. validVote e2 v = validVote e v" "\<And>k. dupAt e2 votes k = dupAt e votes k"
    "\<And>tok rs. openLedger e2 tok rs = openLedger e tok rs"
    by (simp_all add: e2_def)
  have ok2': "rangeOK e2" using ok2 by (simp add: e2_def)
  have "fst (castVotes e fi votes d) = Returned replies" using first by simp
  from castVotes_Returned_full [OF this]
  have br2: "lockLock e2 = None" "\<not> shutdown e2" "gitCheckout e2 = None" "gitPull e2 = None"
    by (simp_all add: e2_def)
  note R = castVotes_Returned [OF ok first, folded xs_def]
  have v1: "verified e fi (length votes) d votes (verifyVotes e fi votes d)"
    by (rule verifyVotes_verified)
  have xsset: "set xs = set (dedupVotes (verifyVotes e fi votes d))"
    unfolding xs_def by (rule rangeOK_set [OF ok])
  have A: "\<not> dupAt e votes k \<and> validVote e (votes ! k) \<and> \<not> inLedger d (votes ! k)"
    if k: "k < length votes" for k
  proof -
    have "replies ! k = finalReply e fi d votes k" using R(2) k by blast
    moreover have "Error (replies ! k) = []" using acc k by blast
    ultimately have "Error (finalReply e fi d votes k) = []" by simp
    then show ?thesis by (rule finalReply_accepted [OF lib])
  qed
  have inxs: "(keyOf (votes ! k), \<lparr> vote = votes ! k, index = k \<rparr>) \<in> set xs"
    if k: "k < length votes" for k
    unfolding xsset using verifiedD(6) [OF v1] k A [OF k] by blast
  have B: "inLedger d1 (votes ! k)" if k: "k < length votes" for k
  proof -
    let ?v = "votes ! k"
    have "vote \<lparr> vote = ?v, index = k \<rparr> \<in> set (map (\<lambda>x. vote (snd x)) xs)"
      by (rule vote_in_map [OF inxs [OF k]])
    then have "?v \<in> set (map (\<lambda>x. vote (snd x)) xs)" by simp
    then have "?v \<in> set (entries (appended d (Token ?v) xs))"
      using A [OF k] by (simp add: appended_def)
    moreover have "d1 (Token ?v) = d (Token ?v) @ appended d (Token ?v) xs" using R(3) by blast
    ultimately have "?v \<in> set (entries (d1 (Token ?v)))" by simp
    then show ?thesis unfolding inLedger_def by (rule imageI)
  qed
  have dx: "distinct (map fst xs)"
    unfolding xs_def by (rule rangeOK_distinct [OF ok verifiedD(7) [OF v1]])
  have kx: "\<forall>x\<in>set xs. fst x = keyOf (vote (snd x))"
  proof
    fix x assume "x \<in> set xs"
    then have "x \<in> set (dedupVotes (verifyVotes e fi votes d))" using xsset by simp
    then show "fst x = keyOf (vote (snd x))" by (rule verified_entry(7) [OF v1])
  qed
  have O: "\<exists>c. openLedger e2 (Token (votes ! k)) (d1 (Token (votes ! k))) = Inr c"
    if k: "k < length votes" for k
  proof -
    let ?tok = "Token (votes ! k)"
    have "\<exists>c. openLedger e (Token (vote (snd (keyOf (votes ! k), \<lparr> vote = votes ! k, index = k \<rparr>))))
            (d (Token (vote (snd (keyOf (votes ! k), \<lparr> vote = votes ! k, index = k \<rparr>))))) = Inr c"
      using R(4) inxs [OF k] by blast
    then have "\<exists>c. openLedger e ?tok (d ?tok) = Inr c" by simp
    then obtain c where "openLedger e ?tok (d ?tok) = Inr c" ..
    from openLedger_appended [where d = d and tok = "?tok", OF this dx kx]
    have "\<exists>c'. openLedger e ?tok (d ?tok @ appended d ?tok xs) = Inr c'" .
    moreover have "d1 ?tok = d ?tok @ appended d ?tok xs" using R(3) by blast
    ultimately show ?thesis by (simp add: same)
  qed
  have v2: "verified e2 fi (length votes) d1 votes t1"
    unfolding t1_def by (rule verifyVotes_verified)
  note V2 = verifiedD [OF v2]
  have ysset: "set ys = set (dedupVotes t1)" unfolding ys_def by (rule rangeOK_set [OF ok2'])
  have start: "ledgered e2 d1 (lockedState t1) [] (lockedState t1)"
    by (rule ledgered_start) (simp_all add: V2)
  have hits: "\<forall>y\<in>set ys. inLedger d1 (vote (snd y))"
  proof
    fix y assume "y \<in> set ys"
    then have y: "y \<in> set (dedupVotes t1)" using ysset by simp
    have "inLedger d1 (votes ! index (snd y))" by (rule B [OF verified_entry(3) [OF v2 y]])
    then show "inLedger d1 (vote (snd y))" using verified_entry(4) [OF v2 y] by simp
  qed
  have each: "\<forall>y\<in>set ys.
       map_of (dedupVotes (lockedState t1)) (keyOf (vote (snd y))) = Some (snd y) \<and>
       index (snd y) < length (cbr (lockedState t1)) \<and>
       (\<exists>c. openLedger e2 (Token (vote (snd y))) (d1 (Token (vote (snd y)))) = Inr c) \<and>
       inLedger d1 (vote (snd y))"
  proof
    fix y assume yy: "y \<in> set ys"
    then have y: "y \<in> set (dedupVotes t1)" using ysset by simp
    have e1: "map_of (dedupVotes (lockedState t1)) (keyOf (vote (snd y))) = Some (snd y)"
      using verified_entry(1) [OF v2 y] by simp
    have e2: "index (snd y) < length (cbr (lockedState t1))"
      using verified_entry(2) [OF v2 y] by simp
    have "\<exists>c. openLedger e2 (Token (votes ! index (snd y))) (d1 (Token (votes ! index (snd y)))) = Inr c"
      by (rule O [OF verified_entry(3) [OF v2 y]])
    then have e3: "\<exists>c. openLedger e2 (Token (vote (snd y))) (d1 (Token (vote (snd y)))) = Inr c"
      using verified_entry(4) [OF v2 y] by simp
    have e4: "inLedger d1 (vote (snd y))" using hits yy by blast
    from e1 e2 e3 e4 show "map_of (dedupVotes (lockedState t1)) (keyOf (vote (snd y))) = Some (snd y) \<and>
       index (snd y) < length (cbr (lockedState t1)) \<and>
       (\<exists>c. openLedger e2 (Token (vote (snd y))) (d1 (Token (vote (snd y)))) = Inr c) \<and>
       inLedger d1 (vote (snd y))" by (intro conjI)
  qed
  have np0: "panicked (lockedState t1) = None" by (simp add: V2)
  have np: "panicked t2 = None"
    unfolding t2_def by (rule ledgered_fold_hits [OF start np0 each])
  have cv: "castVotes e2 fi votes d1 = (Returned (cbr t2), ledgers t2, trace t2 @ [Unlock])"
    unfolding castVotes_full [OF br2] using np by (simp add: t2_def ys_def t1_def)
  note R2 = castVotes_Returned [OF ok2' cv, folded t1_def, folded ys_def]
  have len: "length (cbr t2) = length votes" by (rule R2(1))
  have err: "\<forall>k<length votes. Error (cbr t2 ! k) = ''ticket already voted on proposal''"
  proof (intro allI impI)
    fix k assume k: "k < length votes"
    have "cbr t2 ! k = finalReply e2 fi d1 votes k" using R2(2) k by blast
    then show "Error (cbr t2 ! k) = ''ticket already voted on proposal''"
      using A [OF k] B [OF k] by (simp add: finalReply_def same alreadyVoted_def)
  qed
  have dsk: "ledgers t2 = d1"
  proof
    fix tok
    have "ledgers t2 tok = d1 tok @ appended d1 tok ys" using R2(3) by blast
    then show "ledgers t2 tok = d1 tok" using appended_all_hits [OF hits, of tok] by simp
  qed
  have "castVotes e2 fi votes d1 = (Returned (cbr t2), d1, trace t2 @ [Unlock]) \<and>
        length (cbr t2) = length votes \<and>
        (\<forall>k<length votes. Error (cbr t2 ! k) = ''ticket already voted on proposal'')"
    using cv dsk len err by simp
  then show ?thesis unfolding e2_def by blast
qed


text \<open>An instance: three votes on two proposals, accepted by a first call on the empty disk
  and sent again, the map visited in the opposite order.\<close>

theorem castVotes_idempotent_witness:
  "rangeOK (ex_env 100) \<and> rangeOK ((ex_env 100)\<lparr> rangeMap := \<lambda>xs. xs \<rparr>) \<and>
   libErrorsNonempty (ex_env 100) \<and>
   fst (castVotes (ex_env 100) ''id'' [ex_vote1, ex_vote2, ex_vote3] ex_disk_empty)
     = Returned
        [\<lparr> ClientSignature = ''DsAliceabc123T11'', ReplySignature = ''idDsAliceabc123T11'',
            Error = [] \<rparr>,
         \<lparr> ClientSignature = ''DsBobbyabc123T21'', ReplySignature = ''idDsBobbyabc123T21'',
            Error = [] \<rparr>,
         \<lparr> ClientSignature = ''DsBobbydef456T21'', ReplySignature = ''idDsBobbydef456T21'',
            Error = [] \<rparr>] \<and>
   fst (snd (castVotes (ex_env 100) ''id'' [ex_vote1, ex_vote2, ex_vote3] ex_disk_empty))
     = ex_disk_after \<and>
   fst (castVotes ((ex_env 100)\<lparr> rangeMap := \<lambda>xs. xs \<rparr>) ''id''
          [ex_vote1, ex_vote2, ex_vote3] ex_disk_after)
     = Returned
        [\<lparr> ClientSignature = ''DsAliceabc123T11'', ReplySignature = ''idDsAliceabc123T11'',
            Error = ''ticket already voted on proposal'' \<rparr>,
         \<lparr> ClientSignature = ''DsBobbyabc123T21'', ReplySignature = ''idDsBobbyabc123T21'',
            Error = ''ticket already voted on proposal'' \<rparr>,
         \<lparr> ClientSignature = ''DsBobbydef456T21'', ReplySignature = ''idDsBobbydef456T21'',
            Error = ''ticket already voted on proposal'' \<rparr>] \<and>
   fst (snd (castVotes ((ex_env 100)\<lparr> rangeMap := \<lambda>xs. xs \<rparr>) ''id''
          [ex_vote1, ex_vote2, ex_vote3] ex_disk_after))
     = ex_disk_after"
proof -
  let ?B = "[ex_vote1, ex_vote2, ex_vote3]"
  let ?R1 = "[\<lparr> ClientSignature = ''DsAliceabc123T11'', ReplySignature = ''idDsAliceabc123T11'',
            Error = [] \<rparr>,
         \<lparr> ClientSignature = ''DsBobbyabc123T21'', ReplySignature = ''idDsBobbyabc123T21'',
            Error = [] \<rparr>,
         \<lparr> ClientSignature = ''DsBobbydef456T21'', ReplySignature = ''idDsBobbydef456T21'',
            Error = [] \<rparr>]"
  have r1: "fst (castVotes (ex_env 100) ''id'' ?B ex_disk_empty) = Returned ?R1"
    by (simp add: castVotes_defs ex_defs)
  have d1: "fst (snd (castVotes (ex_env 100) ''id'' ?B ex_disk_empty)) = ex_disk_after"
    by (rule ext) (simp add: castVotes_defs ex_defs ex_disk_after_def)
  have first: "castVotes (ex_env 100) ''id'' ?B ex_disk_empty
      = (Returned ?R1, ex_disk_after, snd (snd (castVotes (ex_env 100) ''id'' ?B ex_disk_empty)))"
    using castVotes_triple [OF r1] d1 by simp
  have acc: "\<forall>k<length ?B. Error (?R1 ! k) = []"
    by (simp add: nth_Cons split: nat.splits)
  have ok2: "rangeOK ((ex_env 100)\<lparr> rangeMap := \<lambda>xs. xs \<rparr>)" by (simp add: rangeOK_def)
  from castVotes_idempotent [OF ex_env_rangeOK ok2 ex_env_libErrorsNonempty first acc]
  obtain replies' where "\<exists>tr'. castVotes ((ex_env 100)\<lparr> rangeMap := \<lambda>xs. xs \<rparr>) ''id'' ?B
        ex_disk_after = (Returned replies', ex_disk_after, tr') \<and> length replies' = length ?B \<and>
        (\<forall>k<length ?B. Error (replies' ! k) = ''ticket already voted on proposal'')" ..
  then obtain tr' where c: "castVotes ((ex_env 100)\<lparr> rangeMap := \<lambda>xs. xs \<rparr>) ''id'' ?B
        ex_disk_after = (Returned replies', ex_disk_after, tr') \<and> length replies' = length ?B \<and>
        (\<forall>k<length ?B. Error (replies' ! k) = ''ticket already voted on proposal'')" ..
  have d2: "fst (snd (castVotes ((ex_env 100)\<lparr> rangeMap := \<lambda>xs. xs \<rparr>) ''id'' ?B ex_disk_after))
      = ex_disk_after"
    unfolding conjunct1 [OF c] by simp
  have r2: "fst (castVotes ((ex_env 100)\<lparr> rangeMap := \<lambda>xs. xs \<rparr>) ''id'' ?B ex_disk_after)
     = Returned
        [\<lparr> ClientSignature = ''DsAliceabc123T11'', ReplySignature = ''idDsAliceabc123T11'',
            Error = ''ticket already voted on proposal'' \<rparr>,
         \<lparr> ClientSignature = ''DsBobbyabc123T21'', ReplySignature = ''idDsBobbyabc123T21'',
            Error = ''ticket already voted on proposal'' \<rparr>,
         \<lparr> ClientSignature = ''DsBobbydef456T21'', ReplySignature = ''idDsBobbydef456T21'',
            Error = ''ticket already voted on proposal'' \<rparr>]"
    by (simp add: castVotes_defs ex_defs ex_disk_after_def)
  from ex_env_rangeOK [of 100] ok2 ex_env_libErrorsNonempty [of 100] r1 d1 r2 d2
  show ?thesis by (intro conjI)
qed

end
